theory Spec2Isabelle
  imports Main "HOL-Library.Word" "HOL-Library.Sublist" "HOL-Library.Multiset"
begin

section \<open>JavaScript strings\<close>

text \<open>
  A JavaScript string is a sequence of UTF-16 code units. String literals of the source
  are ASCII; \<open>js\<close> turns an ASCII literal into its code units.
\<close>

type_synonym jsstring = "16 word list"

definition js :: "string \<Rightarrow> jsstring" where
  "js s = map (\<lambda>c. of_nat (of_char c)) s"

text \<open>
  \<open>String.prototype.trim\<close> removes WhiteSpace and LineTerminator code points from both
  ends: TAB, LF, VT, FF, CR, SP, NBSP, U+1680, U+2000..U+200A, LS, PS, U+202F, U+205F,
  U+3000 and U+FEFF. All of them are single code units.
\<close>

definition is_space :: "16 word \<Rightarrow> bool" where
  "is_space c \<longleftrightarrow>
     c = 0x09 \<or> c = 0x0A \<or> c = 0x0B \<or> c = 0x0C \<or> c = 0x0D \<or> c = 0x20 \<or> c = 0xA0 \<or>
     c = 0x1680 \<or> (0x2000 \<le> c \<and> c \<le> 0x200A) \<or> c = 0x2028 \<or> c = 0x2029 \<or>
     c = 0x202F \<or> c = 0x205F \<or> c = 0x3000 \<or> c = 0xFEFF"

definition trim :: "jsstring \<Rightarrow> jsstring" where
  "trim s = rev (dropWhile is_space (rev (dropWhile is_space s)))"

text \<open>\<open>String.prototype.includes\<close>: does \<open>q\<close> occur in \<open>s\<close> as a contiguous run?\<close>

fun includes_js :: "jsstring \<Rightarrow> jsstring \<Rightarrow> bool" where
  "includes_js [] q = (q = [])"
| "includes_js (c # cs) q = (prefix q (c # cs) \<or> includes_js cs q)"

text \<open>
  \<open>String.prototype.toLowerCase\<close> follows the Unicode case mapping tables of the host.
  The functions below take it as the parameter \<open>lc\<close>; nothing is assumed about it.
  \<open>lower_ascii\<close> is the mapping restricted to ASCII letters, for concrete examples.
\<close>

definition lower_ascii :: "jsstring \<Rightarrow> jsstring" where
  "lower_ascii s = map (\<lambda>c. if 0x41 \<le> c \<and> c \<le> 0x5A then c + 0x20 else c) s"

section \<open>The data model\<close>

text \<open>\<open>todos stored as array of { id, title, completed }\<close>\<close>

record item =
  item_id :: jsstring
  title :: jsstring
  completed :: bool

text \<open>
  The ambient variables of the script (\<open>todos\<close>, \<open>filter\<close>, \<open>searchQuery\<close>,
  \<open>editingId\<close>) and the browser's \<open>localStorage\<close>. \<open>editingId\<close> is \<open>null\<close> or a string.
\<close>

record state =
  todos :: "item list"
  filter_sel :: jsstring
  searchQuery :: jsstring
  editingId :: "jsstring option"
  localStorage :: "jsstring \<rightharpoonup> jsstring"

definition LS_KEY :: jsstring where
  "LS_KEY = js ''todos''"

section \<open>JSON values, \<open>JSON.stringify\<close> and \<open>JSON.parse\<close>\<close>

text \<open>
  The values \<open>JSON.parse\<close> can return. \<open>JNum m e\<close> stands for the Number nearest to
  \<open>m * 10 ^ e\<close> (the sign of zero is not kept). \<open>JObj\<close> lists the own properties in
  property order.
\<close>

datatype json =
    JNull
  | JBool bool
  | JNum int int
  | JStr jsstring
  | JArr "json list"
  | JObj "(jsstring \<times> json) list"

text \<open>The array of objects that \<open>todos\<close> holds, as a JavaScript value.\<close>

definition item_json :: "item \<Rightarrow> json" where
  "item_json t =
     JObj [(js ''id'', JStr (item_id t)), (js ''title'', JStr (title t)),
           (js ''completed'', JBool (completed t))]"

definition todos_json :: "item list \<Rightarrow> json" where
  "todos_json ts = JArr (map item_json ts)"

subsection \<open>\<open>JSON.stringify\<close>\<close>

definition hexdigit :: "nat \<Rightarrow> 16 word" where
  "hexdigit n = (if n < 10 then of_nat (48 + n) else of_nat (87 + n))"

text \<open>UnicodeEscape: backslash, \<open>u\<close> and four lower-case hexadecimal digits.\<close>

definition unicode_escape :: "16 word \<Rightarrow> jsstring" where
  "unicode_escape c =
     [0x5C, 0x75, hexdigit (unat c div 4096 mod 16), hexdigit (unat c div 256 mod 16),
      hexdigit (unat c div 16 mod 16), hexdigit (unat c mod 16)]"

text \<open>The single-character escapes of QuoteJSONString: \<open>\b \t \n \f \r \" \\\<close>.\<close>

definition escape_char :: "16 word \<Rightarrow> 16 word option" where
  "escape_char c =
     (if c = 0x08 then Some 0x62 else if c = 0x09 then Some 0x74
      else if c = 0x0A then Some 0x6E else if c = 0x0C then Some 0x66
      else if c = 0x0D then Some 0x72 else if c = 0x22 then Some 0x22
      else if c = 0x5C then Some 0x5C else None)"

definition is_lead :: "16 word \<Rightarrow> bool" where
  "is_lead c \<longleftrightarrow> 0xD800 \<le> c \<and> c \<le> 0xDBFF"

definition is_trail :: "16 word \<Rightarrow> bool" where
  "is_trail c \<longleftrightarrow> 0xDC00 \<le> c \<and> c \<le> 0xDFFF"

text \<open>
  QuoteJSONString walks the code points of the string: a surrogate pair is copied, a
  lone surrogate and a control character are escaped.
\<close>

fun quote_body :: "jsstring \<Rightarrow> jsstring" where
  "quote_body [] = []"
| "quote_body (c # cs) =
     (case escape_char c of
        Some e \<Rightarrow> 0x5C # e # quote_body cs
      | None \<Rightarrow>
          if c < 0x20 then unicode_escape c @ quote_body cs
          else if is_lead c then
            (case cs of
               [] \<Rightarrow> unicode_escape c
             | d # ds \<Rightarrow>
                 if is_trail d then c # d # quote_body ds
                 else unicode_escape c @ quote_body (d # ds))
          else if is_trail c then unicode_escape c @ quote_body cs
          else c # quote_body cs)"

definition quote_json :: "jsstring \<Rightarrow> jsstring" where
  "quote_json s = 0x22 # quote_body s @ [0x22]"

text \<open>
  SerializeJSONObject and SerializeJSONArray without indentation, on the objects of
  \<open>todos\<close>: the properties in creation order \<open>id\<close>, \<open>title\<close>, \<open>completed\<close>.
\<close>

definition stringify_item :: "item \<Rightarrow> jsstring" where
  "stringify_item t =
     0x7B # quote_json (js ''id'') @ 0x3A # quote_json (item_id t) @
     0x2C # quote_json (js ''title'') @ 0x3A # quote_json (title t) @
     0x2C # quote_json (js ''completed'') @ 0x3A #
       (if completed t then js ''true'' else js ''false'') @ [0x7D]"

fun join_comma :: "jsstring list \<Rightarrow> jsstring" where
  "join_comma [] = []"
| "join_comma [x] = x"
| "join_comma (x # y # ys) = x @ 0x2C # join_comma (y # ys)"

definition stringify_todos :: "item list \<Rightarrow> jsstring" where
  "stringify_todos ts = 0x5B # join_comma (map stringify_item ts) @ [0x5D]"

subsection \<open>\<open>JSON.parse\<close>\<close>

definition is_json_ws :: "16 word \<Rightarrow> bool" where
  "is_json_ws c \<longleftrightarrow> c = 0x20 \<or> c = 0x09 \<or> c = 0x0A \<or> c = 0x0D"

definition is_digit :: "16 word \<Rightarrow> bool" where
  "is_digit c \<longleftrightarrow> 0x30 \<le> c \<and> c \<le> 0x39"

definition hexval :: "16 word \<Rightarrow> nat option" where
  "hexval c =
     (if 0x30 \<le> c \<and> c \<le> 0x39 then Some (unat c - 48)
      else if 0x61 \<le> c \<and> c \<le> 0x66 then Some (unat c - 87)
      else if 0x41 \<le> c \<and> c \<le> 0x46 then Some (unat c - 55)
      else None)"

definition hex4 :: "16 word \<Rightarrow> 16 word \<Rightarrow> 16 word \<Rightarrow> 16 word \<Rightarrow> 16 word option" where
  "hex4 a b c d =
     (case (hexval a, hexval b, hexval c, hexval d) of
        (Some x, Some y, Some z, Some w) \<Rightarrow> Some (of_nat (((x * 16 + y) * 16 + z) * 16 + w))
      | _ \<Rightarrow> None)"

definition unescape :: "16 word \<Rightarrow> 16 word option" where
  "unescape e =
     (if e = 0x22 then Some 0x22 else if e = 0x5C then Some 0x5C
      else if e = 0x2F then Some 0x2F else if e = 0x62 then Some 0x08
      else if e = 0x66 then Some 0x0C else if e = 0x6E then Some 0x0A
      else if e = 0x72 then Some 0x0D else if e = 0x74 then Some 0x09
      else None)"

text \<open>
  The characters of a string literal after its opening quote: the decoded string and
  the number of code units read, the closing quote included. \<open>None\<close> is a SyntaxError.
\<close>

fun scan_string :: "jsstring \<Rightarrow> (jsstring \<times> nat) option" where
  "scan_string [] = None"
| "scan_string (c # cs) =
     (if c = 0x22 then Some ([], 1)
      else if c = 0x5C then
        (case cs of
           [] \<Rightarrow> None
         | e # es \<Rightarrow>
             if e = 0x75 then
               (case es of
                  h1 # h2 # h3 # h4 # r \<Rightarrow>
                    (case hex4 h1 h2 h3 h4 of
                       None \<Rightarrow> None
                     | Some u \<Rightarrow> map_option (\<lambda>(str, k). (u # str, k + 6)) (scan_string r))
                | _ \<Rightarrow> None)
             else
               (case unescape e of
                  None \<Rightarrow> None
                | Some u \<Rightarrow> map_option (\<lambda>(str, k). (u # str, k + 2)) (scan_string es)))
      else if c < 0x20 then None
      else map_option (\<lambda>(str, k). (c # str, k + 1)) (scan_string cs))"

definition digits_val :: "jsstring \<Rightarrow> int" where
  "digits_val ds = foldl (\<lambda>a c. 10 * a + (uint c - 48)) 0 ds"

text \<open>The optional fraction of a number: its digits and the code units read.\<close>

definition scan_frac :: "jsstring \<Rightarrow> (jsstring \<times> nat) option" where
  "scan_frac r =
     (case r of
        [] \<Rightarrow> Some ([], 0)
      | x # r' \<Rightarrow>
          if x = 0x2E then
            (let ds = takeWhile is_digit r' in
             if ds = [] then None else Some (ds, 1 + length ds))
          else Some ([], 0))"

text \<open>The optional exponent of a number: its value and the code units read.\<close>

definition scan_exp :: "jsstring \<Rightarrow> (int \<times> nat) option" where
  "scan_exp r =
     (case r of
        [] \<Rightarrow> Some (0, 0)
      | x # r' \<Rightarrow>
          if x = 0x65 \<or> x = 0x45 then
            (case r' of
               [] \<Rightarrow> None
             | sg # r'' \<Rightarrow>
                 (let body = (if sg = 0x2D \<or> sg = 0x2B then r'' else r');
                      k = (if sg = 0x2D \<or> sg = 0x2B then 2 else 1);
                      ds = takeWhile is_digit body
                  in if ds = [] then None
                     else Some (if sg = 0x2D then - digits_val ds else digits_val ds,
                                k + length ds)))
          else Some (0, 0))"

text \<open>
  An unsigned number whose first digit \<open>d\<close> has been read: mantissa, decimal exponent
  and the code units read after \<open>d\<close>. A leading zero ends the integer part.
\<close>

definition scan_unsigned :: "16 word \<Rightarrow> jsstring \<Rightarrow> ((int \<times> int) \<times> nat) option" where
  "scan_unsigned d r =
     (let ip = (if d = 0x30 then [] else takeWhile is_digit r);
          k1 = length ip
      in case scan_frac (drop k1 r) of
           None \<Rightarrow> None
         | Some (fp, k2) \<Rightarrow>
             (case scan_exp (drop (k1 + k2) r) of
                None \<Rightarrow> None
              | Some (ex, k3) \<Rightarrow>
                  Some ((digits_val (d # ip @ fp), ex - int (length fp)), k1 + k2 + k3)))"

text \<open>
  CreateDataProperty on an ordinary object: an existing key keeps its place and takes the
  new value; a new array index (a canonical numeric string below \<open>2^32 - 1\<close>) goes among
  the array indices in ascending order, before all other keys; any other new key goes
  last.
\<close>

definition array_index :: "jsstring \<Rightarrow> int option" where
  "array_index k =
     (if k \<noteq> [] \<and> list_all is_digit k \<and> (k = [0x30] \<or> hd k \<noteq> 0x30) \<and> digits_val k < 4294967295
      then Some (digits_val k) else None)"

fun insert_index :: "int \<Rightarrow> jsstring \<Rightarrow> json \<Rightarrow> (jsstring \<times> json) list \<Rightarrow> (jsstring \<times> json) list" where
  "insert_index i k v [] = [(k, v)]"
| "insert_index i k v ((k', v') # ps) =
     (case array_index k' of
        None \<Rightarrow> (k, v) # (k', v') # ps
      | Some j \<Rightarrow> if i < j then (k, v) # (k', v') # ps else (k', v') # insert_index i k v ps)"

definition obj_put :: "jsstring \<Rightarrow> json \<Rightarrow> (jsstring \<times> json) list \<Rightarrow> (jsstring \<times> json) list" where
  "obj_put k v ps =
     (if k \<in> fst ` set ps then map (\<lambda>(k', v'). if k' = k then (k', v) else (k', v')) ps
      else case array_index k of
             Some i \<Rightarrow> insert_index i k v ps
           | None \<Rightarrow> ps @ [(k, v)])"

text \<open>
  The parser keeps the containers it is inside of on a stack: an array with the elements
  read so far, or an object with the properties read so far and the key whose value is
  being read.
\<close>

datatype frame =
    FArr "json list"
  | FObj "(jsstring \<times> json) list" jsstring

text \<open>
  \<open>parse_value\<close> reads a value, \<open>array_start\<close> what follows \<open>[\<close>, \<open>object_start\<close> what
  follows \<open>{\<close>, \<open>member_key\<close> the key after a comma in an object, \<open>colon\<close> the colon
  after a key, and \<open>after_value\<close> what follows a complete value. \<open>None\<close> is a SyntaxError.
\<close>

function (sequential) parse_value :: "frame list \<Rightarrow> jsstring \<Rightarrow> json option"
  and array_start :: "frame list \<Rightarrow> jsstring \<Rightarrow> json option"
  and object_start :: "frame list \<Rightarrow> jsstring \<Rightarrow> json option"
  and member_key :: "frame list \<Rightarrow> (jsstring \<times> json) list \<Rightarrow> jsstring \<Rightarrow> json option"
  and colon :: "frame list \<Rightarrow> jsstring \<Rightarrow> json option"
  and after_value :: "frame list \<Rightarrow> json \<Rightarrow> jsstring \<Rightarrow> json option"
where
  "parse_value st [] = None"
| "parse_value st (c # cs) =
     (if is_json_ws c then parse_value st cs
      else if c = 0x5B then array_start st cs
      else if c = 0x7B then object_start st cs
      else if c = 0x22 then
        (case scan_string cs of
           None \<Rightarrow> None
         | Some (str, k) \<Rightarrow> after_value st (JStr str) (drop k cs))
      else if c = 0x74 then
        (if take 3 cs = js ''rue'' then after_value st (JBool True) (drop 3 cs) else None)
      else if c = 0x66 then
        (if take 4 cs = js ''alse'' then after_value st (JBool False) (drop 4 cs) else None)
      else if c = 0x6E then
        (if take 3 cs = js ''ull'' then after_value st JNull (drop 3 cs) else None)
      else if c = 0x2D then
        (case cs of
           [] \<Rightarrow> None
         | d # r \<Rightarrow>
             if is_digit d then
               (case scan_unsigned d r of
                  None \<Rightarrow> None
                | Some ((m, e), k) \<Rightarrow> after_value st (JNum (- m) e) (drop k r))
             else None)
      else if is_digit c then
        (case scan_unsigned c cs of
           None \<Rightarrow> None
         | Some ((m, e), k) \<Rightarrow> after_value st (JNum m e) (drop k cs))
      else None)"
| "array_start st [] = None"
| "array_start st (c # cs) =
     (if is_json_ws c then array_start st cs
      else if c = 0x5D then after_value st (JArr []) cs
      else parse_value (FArr [] # st) (c # cs))"
| "object_start st [] = None"
| "object_start st (c # cs) =
     (if is_json_ws c then object_start st cs
      else if c = 0x7D then after_value st (JObj []) cs
      else member_key st [] (c # cs))"
| "member_key st ps [] = None"
| "member_key st ps (c # cs) =
     (if is_json_ws c then member_key st ps cs
      else if c = 0x22 then
        (case scan_string cs of
           None \<Rightarrow> None
         | Some (k, n) \<Rightarrow> colon (FObj ps k # st) (drop n cs))
      else None)"
| "colon st [] = None"
| "colon st (c # cs) =
     (if is_json_ws c then colon st cs
      else if c = 0x3A then parse_value st cs
      else None)"
| "after_value [] v s = (if list_all is_json_ws s then Some v else None)"
| "after_value (f # st) v [] = None"
| "after_value (FArr vs # st) v (c # cs) =
     (if is_json_ws c then after_value (FArr vs # st) v cs
      else if c = 0x2C then parse_value (FArr (vs @ [v]) # st) cs
      else if c = 0x5D then after_value st (JArr (vs @ [v])) cs
      else None)"
| "after_value (FObj ps k # st) v (c # cs) =
     (if is_json_ws c then after_value (FObj ps k # st) v cs
      else if c = 0x2C then member_key st (obj_put k v ps) cs
      else if c = 0x7D then after_value st (JObj (obj_put k v ps)) cs
      else None)"
  by pat_completeness auto

text \<open>
  Every call reads at least one code unit, except that \<open>array_start\<close> and
  \<open>object_start\<close> hand the code unit they looked at to \<open>parse_value\<close> and
  \<open>member_key\<close>.
\<close>

termination
  by (relation "measure (\<lambda>x. case x of
         Inl (Inl (st, s)) \<Rightarrow> 2 * length s
       | Inl (Inr (Inl (st, s))) \<Rightarrow> 2 * length s + 1
       | Inl (Inr (Inr (st, s))) \<Rightarrow> 2 * length s + 1
       | Inr (Inl (st, ps, s)) \<Rightarrow> 2 * length s
       | Inr (Inr (Inl (st, s))) \<Rightarrow> 2 * length s
       | Inr (Inr (Inr (st, v, s))) \<Rightarrow> 2 * length s)") simp_all

definition JSON_parse :: "jsstring \<Rightarrow> json option" where
  "JSON_parse s = parse_value [] s"

text \<open>
  ToBoolean, as the operator \<open>||\<close> applies it: \<open>null\<close>, \<open>false\<close>, the empty string and
  zero are falsy, every array and object is truthy. A number literal is zero as a Number
  when its value is at most \<open>2^-1075\<close> in magnitude (half of the least subnormal, which
  rounds to even).
\<close>

fun truthy :: "json \<Rightarrow> bool" where
  "truthy JNull = False"
| "truthy (JBool b) = b"
| "truthy (JNum m e) = (\<not> (m = 0 \<or> (e < 0 \<and> \<bar>m\<bar> * 2 ^ 1075 \<le> 10 ^ nat (- e))))"
| "truthy (JStr s) = (s \<noteq> [])"
| "truthy (JArr vs) = True"
| "truthy (JObj ps) = True"

section \<open>Persistence\<close>

text \<open>
  \<open>loadTodos\<close>: the value assigned to \<open>todos\<close>. The stored text is \<open>null\<close> when the key
  is absent; the empty string is falsy as well.
\<close>

definition loadTodos :: "(jsstring \<rightharpoonup> jsstring) \<Rightarrow> json" where
  "loadTodos ls =
     (case ls LS_KEY of
        None \<Rightarrow> JArr []
      | Some raw \<Rightarrow>
          if raw \<noteq> [] then
            (case JSON_parse raw of
               None \<Rightarrow> JArr []
             | Some v \<Rightarrow> if truthy v then v else JArr [])
          else JArr [])"

definition saveTodos :: "state \<Rightarrow> state" where
  "saveTodos s = s\<lparr>localStorage := (localStorage s)(LS_KEY \<mapsto> stringify_todos (todos s))\<rparr>"

section \<open>Rendering: the shown items\<close>

definition shown :: "(jsstring \<Rightarrow> jsstring) \<Rightarrow> state \<Rightarrow> item list" where
  "shown lc s =
     (let shown0 = todos s;
          shown1 = (if filter_sel s = js ''active''
                    then filter (\<lambda>t. \<not> completed t) shown0 else shown0);
          shown2 = (if filter_sel s = js ''completed''
                    then filter (\<lambda>t. completed t) shown1 else shown1)
      in if trim (searchQuery s) \<noteq> [] then
           (let q = lc (trim (searchQuery s))
            in filter (\<lambda>t. includes_js (lc (title t)) q) shown2)
         else shown2)"

text \<open>The count badge: completed items and all items of \<open>todos\<close>.\<close>

definition countBadge :: "state \<Rightarrow> nat \<times> nat" where
  "countBadge s = (length (filter completed (todos s)), length (todos s))"

section \<open>Event handlers\<close>

text \<open>\<open>Array.prototype.findIndex\<close>; \<open>None\<close> is the result \<open>-1\<close>.\<close>

fun findIndex :: "('a \<Rightarrow> bool) \<Rightarrow> 'a list \<Rightarrow> nat option" where
  "findIndex P [] = None"
| "findIndex P (x # xs) = (if P x then Some 0 else map_option Suc (findIndex P xs))"

text \<open>
  The checkbox of the rendered item with id \<open>i\<close> changed; \<open>checked\<close> is its new state.
\<close>

definition chk_change :: "jsstring \<Rightarrow> bool \<Rightarrow> state \<Rightarrow> state" where
  "chk_change i checked s =
     (case findIndex (\<lambda>t. item_id t = i) (todos s) of
        Some idx \<Rightarrow>
          saveTodos (s\<lparr>todos := (todos s)[idx := (todos s ! idx)\<lparr>completed := checked\<rparr>]\<rparr>)
      | None \<Rightarrow> s)"

text \<open>The delete button of the rendered item with id \<open>i\<close>; \<open>ok\<close> is the answer to \<open>confirm\<close>.\<close>

definition del_click :: "jsstring \<Rightarrow> bool \<Rightarrow> state \<Rightarrow> state" where
  "del_click i ok s =
     (if \<not> ok then s
      else saveTodos (s\<lparr>todos := filter (\<lambda>t. item_id t \<noteq> i) (todos s)\<rparr>))"

text \<open>\<open>if (editingId)\<close>: \<open>null\<close> and the empty string are falsy.\<close>

definition truthy_id :: "jsstring option \<Rightarrow> bool" where
  "truthy_id e = (case e of None \<Rightarrow> False | Some i \<Rightarrow> i \<noteq> [])"

definition msg_empty :: string where
  "msg_empty = ''Judul todo tidak boleh kosong.''"

definition msg_duplicate :: string where
  "msg_duplicate = ''Sudah ada todo dengan judul yang sama. Gunakan judul lain.''"

text \<open>
  The submit handler of the form. \<open>input\<close> is \<open>todoInput.value\<close> and \<open>fresh\<close> is what
  \<open>uid()\<close> returns if it is called. The result is the message of the \<open>alert\<close>, if any,
  and the new state.
\<close>

definition submit :: "(jsstring \<Rightarrow> jsstring) \<Rightarrow> jsstring \<Rightarrow> jsstring \<Rightarrow> state \<Rightarrow> string option \<times> state" where
  "submit lc fresh input s =
     (let v = trim input in
      if v = [] then (Some msg_empty, s)
      else if list_ex (\<lambda>t. lc (title t) = lc v \<and> Some (item_id t) \<noteq> editingId s) (todos s)
      then (Some msg_duplicate, s)
      else
        (None,
         saveTodos
           (if truthy_id (editingId s) then
              (case findIndex (\<lambda>t. Some (item_id t) = editingId s) (todos s) of
                 Some idx \<Rightarrow>
                   s\<lparr>todos := (todos s)[idx := (todos s ! idx)\<lparr>title := v\<rparr>],
                     editingId := None\<rparr>
               | None \<Rightarrow> s)
            else s\<lparr>todos := \<lparr>item_id = fresh, title = v, completed = False\<rparr> # todos s\<rparr>)))"

definition startEdit :: "jsstring \<Rightarrow> state \<Rightarrow> state" where
  "startEdit i s =
     (case find (\<lambda>x. item_id x = i) (todos s) of
        None \<Rightarrow> s
      | Some t \<Rightarrow> s\<lparr>editingId := Some i\<rparr>)"

definition filter_click :: "jsstring \<Rightarrow> state \<Rightarrow> state" where
  "filter_click f s = s\<lparr>filter_sel := f\<rparr>"

definition search_input :: "jsstring \<Rightarrow> state \<Rightarrow> state" where
  "search_input q s = s\<lparr>searchQuery := q\<rparr>"

definition clear_click :: "bool \<Rightarrow> state \<Rightarrow> state" where
  "clear_click ok s = (if \<not> ok then s else saveTodos (s\<lparr>todos := []\<rparr>))"

text \<open>
  \<open>onEnd\<close> of the sortable list: \<open>orderedIds\<close> are the \<open>data-id\<close>s of the list elements
  after the drag. The \<open>forEach\<close> pushes the item found for each id, if any.
\<close>

definition newTodos :: "item list \<Rightarrow> jsstring list \<Rightarrow> item list" where
  "newTodos ts orderedIds =
     foldl (\<lambda>acc i. case find (\<lambda>x. item_id x = i) ts of Some t \<Rightarrow> acc @ [t] | None \<Rightarrow> acc)
       [] orderedIds"

definition onEnd :: "jsstring list \<Rightarrow> state \<Rightarrow> state" where
  "onEnd orderedIds s =
     (let rest = filter (\<lambda>t. item_id t \<notin> set orderedIds) (todos s)
      in saveTodos (s\<lparr>todos := newTodos (todos s) orderedIds @ rest\<rparr>))"

section \<open>Events\<close>

text \<open>
  The host runs one handler at a time. An event carries what the handler reads from the
  page: the input text and the id \<open>uid()\<close> would return, the id of the rendered item
  whose control was used, the answer to a \<open>confirm\<close>, the ids of the list elements after
  a drag.
\<close>

datatype event =
    Submit jsstring jsstring
  | ChkChange jsstring bool
  | DelClick jsstring bool
  | StartEdit jsstring
  | FilterClick jsstring
  | SearchInput jsstring
  | ClearClick bool
  | DragEnd "jsstring list"
  | BeforeUnload

fun handle :: "(jsstring \<Rightarrow> jsstring) \<Rightarrow> event \<Rightarrow> state \<Rightarrow> state" where
  "handle lc (Submit fresh input) s = snd (submit lc fresh input s)"
| "handle lc (ChkChange i checked) s = chk_change i checked s"
| "handle lc (DelClick i ok) s = del_click i ok s"
| "handle lc (StartEdit i) s = startEdit i s"
| "handle lc (FilterClick f) s = filter_click f s"
| "handle lc (SearchInput q) s = search_input q s"
| "handle lc (ClearClick ok) s = clear_click ok s"
| "handle lc (DragEnd orderedIds) s = onEnd orderedIds s"
| "handle lc BeforeUnload s = saveTodos s"

text \<open>
  What the environment provides: \<open>uid()\<close> returns a non-empty id that no item of
  \<open>todos\<close> has, and after a drag the list holds the rendered elements, each once.
\<close>

fun provided :: "(jsstring \<Rightarrow> jsstring) \<Rightarrow> event \<Rightarrow> state \<Rightarrow> bool" where
  "provided lc (Submit fresh input) s = (fresh \<noteq> [] \<and> fresh \<notin> set (map item_id (todos s)))"
| "provided lc (DragEnd orderedIds) s = (mset orderedIds = mset (map item_id (shown lc s)))"
| "provided lc e s = True"

fun run :: "(jsstring \<Rightarrow> jsstring) \<Rightarrow> event list \<Rightarrow> state \<Rightarrow> state option" where
  "run lc [] s = Some s"
| "run lc (e # es) s = (if provided lc e s then run lc es (handle lc e s) else None)"

text \<open>The state after the script has run, when \<open>loadTodos\<close> gave the items \<open>ts\<close>.\<close>

definition started :: "item list \<Rightarrow> (jsstring \<rightharpoonup> jsstring) \<Rightarrow> state" where
  "started ts ls =
     \<lparr>todos = ts, filter_sel = js ''all'', searchQuery = [], editingId = None,
      localStorage = ls\<rparr>"

section \<open>Properties of collections\<close>

text \<open>I1: no two items have the same title after trimming and lower-casing.\<close>

definition I1 :: "(jsstring \<Rightarrow> jsstring) \<Rightarrow> item list \<Rightarrow> bool" where
  "I1 lc ts = distinct (map (\<lambda>t. lc (trim (title t))) ts)"

text \<open>
  What \<open>uid()\<close> and the submit handler establish for every item: ids are non-empty and
  pairwise different, titles are stored trimmed.
\<close>

definition unique_ids :: "item list \<Rightarrow> bool" where
  "unique_ids ts = (distinct (map item_id ts) \<and> list_all (\<lambda>t. item_id t \<noteq> []) ts)"

definition titles_trimmed :: "item list \<Rightarrow> bool" where
  "titles_trimmed ts = list_all (\<lambda>t. trim (title t) = title t) ts"

text \<open>
  The projection in the words of the specification: keep the items the status filter
  admits and, when the trimmed query is not empty, those whose lower-cased title contains
  the lower-cased trimmed query.
\<close>

definition spec_status :: "jsstring \<Rightarrow> item \<Rightarrow> bool" where
  "spec_status f t =
     (if f = js ''active'' then \<not> completed t
      else if f = js ''completed'' then completed t
      else True)"

definition spec_project :: "(jsstring \<Rightarrow> jsstring) \<Rightarrow> item list \<Rightarrow> jsstring \<Rightarrow> jsstring \<Rightarrow> item list" where
  "spec_project lc collection f query =
     filter (\<lambda>t. spec_status f t \<and>
                 (trim query = [] \<or> sublist (lc (trim query)) (lc (title t))))
       collection"

section \<open>Example data\<close>

definition itemA :: item where
  "itemA = \<lparr>item_id = js ''a1'', title = js ''A'', completed = False\<rparr>"

definition itemB :: item where
  "itemB = \<lparr>item_id = js ''b2'', title = js ''B'', completed = True\<rparr>"

definition itemC :: item where
  "itemC = \<lparr>item_id = js ''c3'', title = js ''C'', completed = False\<rparr>"

definition itemD :: item where
  "itemD = \<lparr>item_id = js ''d4'', title = js ''D'', completed = True\<rparr>"

text \<open>Scenario C: \<open>[A, B, C, D]\<close> with B and D completed, under the filter \<open>active\<close>.\<close>

definition scenarioC :: state where
  "scenarioC =
     \<lparr>todos = [itemA, itemB, itemC, itemD], filter_sel = js ''active'', searchQuery = [],
      editingId = None, localStorage = Map.empty\<rparr>"

section \<open>Lists and lookups\<close>

lemma js_simps [simp]: "js [] = []" "js (c # cs) = of_nat (of_char c) # js cs"
  by (simp_all add: js_def)

lemma findIndex_None: "findIndex P xs = None \<longleftrightarrow> (\<forall>x\<in>set xs. \<not> P x)"
  by (induction xs) auto

lemma findIndex_Some:
  "findIndex P xs = Some i \<Longrightarrow> i < length xs \<and> P (xs ! i) \<and> (\<forall>j<i. \<not> P (xs ! j))"
proof (induction xs arbitrary: i)
  case Nil
  then show ?case by simp
next
  case (Cons x xs)
  show ?case
  proof (cases "P x")
    case True
    with Cons.prems show ?thesis by simp
  next
    case False
    with Cons.prems obtain k where k: "findIndex P xs = Some k" "i = Suc k"
      by auto
    from Cons.IH [OF k(1)] False k(2) show ?thesis
      by (auto simp: less_Suc_eq_0_disj)
  qed
qed

lemma foldl_push:
  "foldl (\<lambda>acc i. case f i of Some t \<Rightarrow> acc @ [t] | None \<Rightarrow> acc) acc ids =
     acc @ concat (map (\<lambda>i. case f i of Some t \<Rightarrow> [t] | None \<Rightarrow> []) ids)"
  by (induction ids arbitrary: acc) (auto split: option.splits)

lemma newTodos_Nil [simp]: "newTodos ts [] = []"
  by (simp add: newTodos_def)

lemma newTodos_Cons:
  "newTodos ts (i # ids) =
     (case find (\<lambda>x. item_id x = i) ts of Some t \<Rightarrow> t # newTodos ts ids | None \<Rightarrow> newTodos ts ids)"
  by (simp add: newTodos_def foldl_push split: option.splits)

lemma find_id_Some:
  "find (\<lambda>x. item_id x = i) ts = Some t \<Longrightarrow> t \<in> set ts \<and> item_id t = i"
  by (induction ts) (auto split: if_splits)

lemma find_id_None:
  "find (\<lambda>x. item_id x = i) ts = None \<longleftrightarrow> i \<notin> item_id ` set ts"
  by (induction ts) auto

lemma filter_id_single:
  "distinct (map item_id ts) \<Longrightarrow> t \<in> set ts \<Longrightarrow> filter (\<lambda>x. item_id x = item_id t) ts = [t]"
proof (induction ts)
  case Nil
  then show ?case by simp
next
  case (Cons a ts)
  show ?case
  proof (cases "a = t")
    case True
    with Cons.prems have "item_id t \<notin> item_id ` set ts" by simp
    then have "\<forall>x\<in>set ts. item_id x \<noteq> item_id t" by (metis imageI)
    then have "filter (\<lambda>x. item_id x = item_id t) ts = []" by (simp add: filter_empty_conv)
    with True show ?thesis by simp
  next
    case False
    with Cons.prems have t: "t \<in> set ts" and d: "distinct (map item_id ts)" by auto
    from Cons.prems t have "item_id a \<noteq> item_id t" by auto
    with Cons.IH [OF d t] show ?thesis by simp
  qed
qed

lemma mset_newTodos:
  "distinct (map item_id ts) \<Longrightarrow> distinct ids \<Longrightarrow>
     mset (newTodos ts ids) = mset (filter (\<lambda>t. item_id t \<in> set ids) ts)"
proof (induction ids)
  case Nil
  then show ?case by simp
next
  case (Cons i ids)
  then have IH: "mset (newTodos ts ids) = mset (filter (\<lambda>t. item_id t \<in> set ids) ts)"
    and i: "i \<notin> set ids" by auto
  have split: "mset (filter (\<lambda>t. item_id t \<in> set (i # ids)) ts) =
      mset (filter (\<lambda>t. item_id t = i) ts) + mset (filter (\<lambda>t. item_id t \<in> set ids) ts)"
    using i by (induction ts) auto
  show ?case
  proof (cases "find (\<lambda>x. item_id x = i) ts")
    case None
    then have "filter (\<lambda>t. item_id t = i) ts = []"
      by (auto simp: find_id_None filter_empty_conv)
    with None IH split show ?thesis by (simp add: newTodos_Cons)
  next
    case (Some t)
    then have "t \<in> set ts" "item_id t = i" using find_id_Some by auto
    with filter_id_single [OF Cons.prems(1), of t]
    have "filter (\<lambda>x. item_id x = i) ts = [t]" by simp
    with Some IH split show ?thesis by (simp add: newTodos_Cons)
  qed
qed

lemma map_id_newTodos:
  "set ids \<subseteq> item_id ` set ts \<Longrightarrow> map item_id (newTodos ts ids) = ids"
proof (induction ids)
  case Nil
  then show ?case by simp
next
  case (Cons i ids)
  then obtain t where "find (\<lambda>x. item_id x = i) ts = Some t"
    using find_id_None [of i ts] by (cases "find (\<lambda>x. item_id x = i) ts") auto
  with Cons find_id_Some [of i ts t] show ?case by (simp add: newTodos_Cons)
qed

lemma todos_saveTodos [simp]: "todos (saveTodos s) = todos s"
  by (simp add: saveTodos_def)

lemma mset_onEnd:
  assumes "distinct (map item_id (todos s))" and "distinct ids"
  shows "mset (todos (onEnd ids s)) = mset (todos s)"
proof -
  have "mset (todos (onEnd ids s)) =
      mset (filter (\<lambda>t. item_id t \<in> set ids) (todos s)) +
      mset (filter (\<lambda>t. item_id t \<notin> set ids) (todos s))"
    by (simp add: onEnd_def Let_def mset_newTodos [OF assms])
  then show ?thesis by simp
qed


section \<open>Reordering\<close>

lemma distinct_ids_shown: "distinct (map item_id (todos s)) \<Longrightarrow> distinct (map item_id (shown lc s))"
  by (simp add: shown_def Let_def distinct_map_filter)

lemma shown_subset: "set (shown lc s) \<subseteq> set (todos s)"
  by (auto simp: shown_def Let_def)

lemma id_mem_iff:
  assumes "distinct (map item_id ts)" and "set vs \<subseteq> set ts" and t: "t \<in> set ts"
  shows "(item_id t \<in> item_id ` set vs) = (t \<in> set vs)"
proof
  assume "item_id t \<in> item_id ` set vs"
  then obtain v where v: "v \<in> set vs" "item_id v = item_id t" by auto
  with assms(2) have "v \<in> set ts" by auto
  with assms(1) t v(2) have "v = t" by (simp add: distinct_map inj_on_def)
  with v(1) show "t \<in> set vs" by simp
next
  assume "t \<in> set vs" then show "item_id t \<in> item_id ` set vs" by simp
qed

lemma filter_id_mem:
  assumes "distinct (map item_id ts)" and "set vs \<subseteq> set ts"
  shows "filter (\<lambda>t. item_id t \<notin> item_id ` set vs) ts = filter (\<lambda>t. t \<notin> set vs) ts"
  by (rule filter_cong [OF refl]) (simp add: id_mem_iff [OF assms])

lemma mset_filter_eq_set:
  assumes "distinct (map item_id ts)" and "distinct (map item_id vs)" and "set vs \<subseteq> set ts"
  shows "mset (filter (\<lambda>t. item_id t \<in> item_id ` set vs) ts) = mset vs"
proof -
  have d1: "distinct ts" and d2: "distinct vs"
    using assms(1,2) by (simp_all add: distinct_map)
  have "filter (\<lambda>t. item_id t \<in> item_id ` set vs) ts = filter (\<lambda>t. t \<in> set vs) ts"
    by (rule filter_cong [OF refl]) (simp add: id_mem_iff [OF assms(1,3)])
  moreover have "set (filter (\<lambda>t. t \<in> set vs) ts) = set vs"
    using assms(3) by auto
  moreover have "distinct (filter (\<lambda>t. t \<in> set vs) ts)"
    using d1 by simp
  ultimately have "mset (filter (\<lambda>t. t \<in> set vs) ts) = mset vs"
    using d2 set_eq_iff_mset_eq_distinct by blast
  with \<open>filter (\<lambda>t. item_id t \<in> item_id ` set vs) ts = filter (\<lambda>t. t \<in> set vs) ts\<close>
  show ?thesis by simp
qed

text \<open>
  C1: when the ids of \<open>todos\<close> are pairwise different and \<open>visibleOrder\<close> is a
  permutation of the ids of the shown items, \<open>onEnd\<close> leaves in \<open>todos\<close> the shown items
  first, in the order of \<open>visibleOrder\<close>, followed by the items whose id is not in
  \<open>visibleOrder\<close> (the items that are not shown), in the order they had in \<open>todos\<close>.
\<close>

theorem reconcile_visible_then_hidden:
  assumes "distinct (map item_id (todos s))"
    and "mset visibleOrder = mset (map item_id (shown lc s))"
  shows "\<exists>reorderedVisible hidden.
           todos (onEnd visibleOrder s) = reorderedVisible @ hidden \<and>
           map item_id reorderedVisible = visibleOrder \<and>
           mset reorderedVisible = mset (shown lc s) \<and>
           hidden = filter (\<lambda>t. item_id t \<notin> set visibleOrder) (todos s) \<and>
           hidden = filter (\<lambda>t. t \<notin> set (shown lc s)) (todos s) \<and>
           subseq hidden (todos s)"
proof -
  let ?vis = "shown lc s"
  have set_vo: "set visibleOrder = item_id ` set ?vis"
    using assms(2) by (metis mset_eq_setD set_map)
  have dist_vo: "distinct visibleOrder"
    using assms(2) distinct_ids_shown [OF assms(1), of lc] by (metis mset_eq_imp_distinct_iff)
  have sub: "set visibleOrder \<subseteq> item_id ` set (todos s)"
    using set_vo shown_subset [of lc s] by auto
  have a: "todos (onEnd visibleOrder s) =
      newTodos (todos s) visibleOrder @ filter (\<lambda>t. item_id t \<notin> set visibleOrder) (todos s)"
    by (simp add: onEnd_def Let_def)
  have b: "map item_id (newTodos (todos s) visibleOrder) = visibleOrder"
    by (rule map_id_newTodos [OF sub])
  have c: "mset (newTodos (todos s) visibleOrder) = mset ?vis"
    using mset_newTodos [OF assms(1) dist_vo]
      mset_filter_eq_set [OF assms(1) distinct_ids_shown [OF assms(1)] shown_subset, of lc]
    by (simp add: set_vo)
  have d: "filter (\<lambda>t. item_id t \<notin> set visibleOrder) (todos s) =
      filter (\<lambda>t. t \<notin> set ?vis) (todos s)"
    using filter_id_mem [OF assms(1) shown_subset, of lc] by (simp add: set_vo)
  from a b c d show ?thesis by simp
qed

text \<open>Scenario C: the shown items \<open>[A, C]\<close> reordered to \<open>[C, A]\<close> give \<open>[C, A, B, D]\<close>.\<close>

lemma scenarioC_simps:
  "todos scenarioC = [itemA, itemB, itemC, itemD]"
  "shown lc scenarioC = [itemA, itemC]"
  by (simp_all add: scenarioC_def shown_def trim_def itemA_def itemB_def itemC_def itemD_def)


lemma item_ids_simps:
  "item_id itemA = js ''a1''" "item_id itemB = js ''b2''"
  "item_id itemC = js ''c3''" "item_id itemD = js ''d4''"
  by (simp_all add: itemA_def itemB_def itemC_def itemD_def)

theorem reconcile_visible_then_hidden_witness:
  "distinct (map item_id (todos scenarioC)) \<and>
   mset [js ''c3'', js ''a1''] = mset (map item_id (shown lower_ascii scenarioC)) \<and>
   todos (onEnd [js ''c3'', js ''a1''] scenarioC) = [itemC, itemA, itemB, itemD]"
proof -
  have h1: "distinct (map item_id (todos scenarioC))"
    by (simp add: scenarioC_simps item_ids_simps)
  have h2: "mset [js ''c3'', js ''a1''] = mset (map item_id (shown lower_ascii scenarioC))"
    by (simp add: scenarioC_simps item_ids_simps)
  have r: "todos (onEnd [js ''c3'', js ''a1''] scenarioC) = [itemC, itemA, itemB, itemD]"
    by (simp add: onEnd_def newTodos_def scenarioC_simps itemA_def itemB_def itemC_def itemD_def)
  from reconcile_visible_then_hidden [OF h1 h2] h1 h2 r show ?thesis
    by blast
qed

text \<open>
  C2: when the ids of \<open>todos\<close> are pairwise different and \<open>visibleOrder\<close> lists ids of
  \<open>todos\<close>, each at most once, \<open>onEnd\<close> leaves in \<open>todos\<close> the same items as before, each
  as often as before: the same multiset of ids, the same length, the same set of ids.
\<close>

theorem reconcile_conserves_items:
  assumes "distinct (map item_id (todos s))"
    and "distinct visibleOrder"
    and "set visibleOrder \<subseteq> set (map item_id (todos s))"
  shows "mset (todos (onEnd visibleOrder s)) = mset (todos s) \<and>
         mset (map item_id (todos (onEnd visibleOrder s))) = mset (map item_id (todos s)) \<and>
         length (todos (onEnd visibleOrder s)) = length (todos s) \<and>
         set (map item_id (todos (onEnd visibleOrder s))) = set (map item_id (todos s)) \<and>
         distinct (map item_id (todos (onEnd visibleOrder s)))"
proof -
  have m: "mset (todos (onEnd visibleOrder s)) = mset (todos s)"
    by (rule mset_onEnd [OF assms(1,2)])
  then have mi: "mset (map item_id (todos (onEnd visibleOrder s))) = mset (map item_id (todos s))"
    by simp
  have l: "length (todos (onEnd visibleOrder s)) = length (todos s)"
    using m by (rule mset_eq_length)
  have st: "set (map item_id (todos (onEnd visibleOrder s))) = set (map item_id (todos s))"
    using mi by (rule mset_eq_setD)
  have d: "distinct (map item_id (todos (onEnd visibleOrder s)))"
    using mi assms(1) by (metis mset_eq_imp_distinct_iff)
  from m mi l st d show ?thesis by simp
qed

theorem reconcile_conserves_items_witness:
  "distinct (map item_id (todos scenarioC)) \<and>
   distinct [js ''c3'', js ''a1''] \<and>
   set [js ''c3'', js ''a1''] \<subseteq> set (map item_id (todos scenarioC)) \<and>
   mset (todos (onEnd [js ''c3'', js ''a1''] scenarioC)) = mset (todos scenarioC) \<and>
   length (todos (onEnd [js ''c3'', js ''a1''] scenarioC)) = 4"
proof -
  have h1: "distinct (map item_id (todos scenarioC))"
    by (simp add: scenarioC_simps item_ids_simps)
  have h2: "distinct [js ''c3'', js ''a1'']"
    by simp
  have h3: "set [js ''c3'', js ''a1''] \<subseteq> set (map item_id (todos scenarioC))"
    by (simp add: scenarioC_simps item_ids_simps)
  have "length (todos scenarioC) = 4"
    by (simp add: scenarioC_simps)
  with reconcile_conserves_items [OF h1 h2 h3] h1 h2 h3 show ?thesis
    by simp
qed

section \<open>Toggling\<close>

lemma filter_list_update_other:
  "k < length xs \<Longrightarrow> \<not> P (xs ! k) \<Longrightarrow> \<not> P y \<Longrightarrow> filter P (xs[k := y]) = filter P xs"
proof (induction xs arbitrary: k)
  case Nil
  then show ?case by simp
next
  case (Cons x xs)
  then show ?case by (cases k) auto
qed

text \<open>
  C10: when an item of \<open>todos\<close> has the id \<open>i\<close>, the checkbox handler replaces one item
  with that id by itself with the new \<open>completed\<close>. The ids and the titles of \<open>todos\<close>, in
  order, are as before, every item with another id is where it was and as it was, and
  the filter, the search text and the edit target are as before.
\<close>

theorem toggle_changes_completed_only:
  assumes "i \<in> set (map item_id (todos s))"
  shows "(\<exists>idx. idx < length (todos s) \<and> item_id (todos s ! idx) = i \<and>
            todos (chk_change i checked s) =
              (todos s)[idx := (todos s ! idx)\<lparr>completed := checked\<rparr>]) \<and>
         map item_id (todos (chk_change i checked s)) = map item_id (todos s) \<and>
         map title (todos (chk_change i checked s)) = map title (todos s) \<and>
         length (todos (chk_change i checked s)) = length (todos s) \<and>
         filter (\<lambda>t. item_id t \<noteq> i) (todos (chk_change i checked s)) =
           filter (\<lambda>t. item_id t \<noteq> i) (todos s) \<and>
         (\<forall>j. j < length (todos s) \<and> item_id (todos s ! j) \<noteq> i \<longrightarrow>
            todos (chk_change i checked s) ! j = todos s ! j) \<and>
         filter_sel (chk_change i checked s) = filter_sel s \<and>
         searchQuery (chk_change i checked s) = searchQuery s \<and>
         editingId (chk_change i checked s) = editingId s"
proof -
  from assms have "findIndex (\<lambda>t. item_id t = i) (todos s) \<noteq> None"
    by (auto simp: findIndex_None)
  then obtain idx where f: "findIndex (\<lambda>t. item_id t = i) (todos s) = Some idx"
    by auto
  from findIndex_Some [OF f] have idx: "idx < length (todos s)" "item_id (todos s ! idx) = i"
    by auto
  let ?new = "(todos s)[idx := (todos s ! idx)\<lparr>completed := checked\<rparr>]"
  have t: "todos (chk_change i checked s) = ?new"
    by (simp add: chk_change_def f)
  have rest: "filter_sel (chk_change i checked s) = filter_sel s"
    "searchQuery (chk_change i checked s) = searchQuery s"
    "editingId (chk_change i checked s) = editingId s"
    by (simp_all add: chk_change_def f saveTodos_def)
  have ids: "map item_id ?new = map item_id (todos s)"
    using idx by (simp add: map_update list_update_same_conv)
  have titles: "map title ?new = map title (todos s)"
    using idx by (simp add: map_update list_update_same_conv)
  have flt: "filter (\<lambda>t. item_id t \<noteq> i) ?new = filter (\<lambda>t. item_id t \<noteq> i) (todos s)"
    using idx by (simp add: filter_list_update_other)
  have others: "\<forall>j. j < length (todos s) \<and> item_id (todos s ! j) \<noteq> i \<longrightarrow> ?new ! j = todos s ! j"
    using idx by (auto simp: nth_list_update)
  from idx t have ex: "\<exists>idx. idx < length (todos s) \<and> item_id (todos s ! idx) = i \<and>
            todos (chk_change i checked s) =
              (todos s)[idx := (todos s ! idx)\<lparr>completed := checked\<rparr>]"
    by blast
  show ?thesis
    using ex ids titles flt others rest by (simp add: t)
qed

theorem toggle_changes_completed_only_witness:
  "js ''b2'' \<in> set (map item_id (todos scenarioC)) \<and>
   todos (chk_change (js ''b2'') False scenarioC) =
     [itemA, itemB\<lparr>completed := False\<rparr>, itemC, itemD]"
proof -
  have h: "js ''b2'' \<in> set (map item_id (todos scenarioC))"
    by (simp add: scenarioC_simps item_ids_simps)
  have r: "todos (chk_change (js ''b2'') False scenarioC) =
     [itemA, itemB\<lparr>completed := False\<rparr>, itemC, itemD]"
    by (simp add: chk_change_def scenarioC_simps item_ids_simps)
  from toggle_changes_completed_only [OF h, of False] h r show ?thesis
    by blast
qed

section \<open>The projection\<close>

lemma includes_js_sublist: "includes_js s q \<longleftrightarrow> sublist q s"
  by (induction s) (auto simp: sublist_Cons_right)

text \<open>
  C7: the shown items are the items of \<open>todos\<close> that the status filter admits (\<open>active\<close>:
  not completed, \<open>completed\<close>: completed, anything else: all) and, when the trimmed search
  text is not empty, whose lower-cased title contains the lower-cased trimmed search text
  as a contiguous run. They are a subsequence of \<open>todos\<close>, in the order of \<open>todos\<close>; the
  projection is a function of the state and changes nothing.
\<close>

theorem shown_is_projection:
  "shown lc s = spec_project lc (todos s) (filter_sel s) (searchQuery s) \<and>
   subseq (shown lc s) (todos s)"
proof -
  have a: "js ''active'' \<noteq> js ''completed''"
    by simp
  have "shown lc s = spec_project lc (todos s) (filter_sel s) (searchQuery s)"
    using a by (auto simp: shown_def spec_project_def spec_status_def Let_def
        includes_js_sublist intro: filter_cong)
  moreover have "subseq (spec_project lc (todos s) (filter_sel s) (searchQuery s)) (todos s)"
    by (simp add: spec_project_def)
  ultimately show ?thesis by simp
qed

theorem shown_is_projection_witness:
  "shown lower_ascii (scenarioC\<lparr>filter_sel := js ''all'', searchQuery := js '' a ''\<rparr>) = [itemA] \<and>
   spec_project lower_ascii [itemA, itemB, itemC, itemD] (js ''all'') (js '' a '') = [itemA] \<and>
   shown lower_ascii scenarioC = [itemA, itemC] \<and>
   subseq [itemA, itemC] [itemA, itemB, itemC, itemD]"
proof -
  have t: "todos (scenarioC\<lparr>filter_sel := js ''all'', searchQuery := js '' a ''\<rparr>) =
      [itemA, itemB, itemC, itemD]"
    by (simp add: scenarioC_def)
  have r: "shown lower_ascii (scenarioC\<lparr>filter_sel := js ''all'', searchQuery := js '' a ''\<rparr>) = [itemA]"
    by (simp add: shown_def scenarioC_def trim_def is_space_def lower_ascii_def Let_def
        itemA_def itemB_def itemC_def itemD_def)
  note p1 = shown_is_projection [of lower_ascii "scenarioC\<lparr>filter_sel := js ''all'', searchQuery := js '' a ''\<rparr>"]
  note p2 = shown_is_projection [of lower_ascii scenarioC]
  have c2: "spec_project lower_ascii [itemA, itemB, itemC, itemD] (js ''all'') (js '' a '') = [itemA]"
    using p1 [THEN conjunct1] r t by simp
  have c4: "subseq [itemA, itemC] [itemA, itemB, itemC, itemD]"
    using p2 [THEN conjunct2] by (simp only: scenarioC_simps)
  from r c2 c4 show ?thesis
    by (simp only: scenarioC_simps simp_thms)
qed

section \<open>The submit handler\<close>

text \<open>
  C4: with no edit target, the submit handler trims the input; it alerts that the title
  is empty and changes nothing when the trimmed input is empty; it alerts that the title
  exists and changes nothing when the lower-cased title of an item equals the lower-cased
  trimmed input; otherwise it puts a new item with the trimmed input as title and
  \<open>completed = false\<close> in front of \<open>todos\<close> and stores the serialised \<open>todos\<close>. Titles
  that are stored trimmed are compared as normalised titles.
\<close>

theorem add_inserts_at_front:
  assumes "editingId s = None"
  shows "submit lc fresh input s =
           (if trim input = [] then (Some msg_empty, s)
            else if \<exists>t\<in>set (todos s). lc (title t) = lc (trim input)
            then (Some msg_duplicate, s)
            else (None,
                  s\<lparr>todos := \<lparr>item_id = fresh, title = trim input, completed = False\<rparr> # todos s,
                    localStorage := (localStorage s)(LS_KEY \<mapsto>
                      stringify_todos
                        (\<lparr>item_id = fresh, title = trim input, completed = False\<rparr> # todos s))\<rparr>)) \<and>
         (titles_trimmed (todos s) \<longrightarrow>
            (\<exists>t\<in>set (todos s). lc (title t) = lc (trim input)) =
            (\<exists>t\<in>set (todos s). lc (trim (title t)) = lc (trim input)))"
proof -
  have "titles_trimmed (todos s) \<longrightarrow>
        (\<exists>t\<in>set (todos s). lc (title t) = lc (trim input)) =
        (\<exists>t\<in>set (todos s). lc (trim (title t)) = lc (trim input))"
    by (auto simp: titles_trimmed_def list_all_iff)
  moreover have "submit lc fresh input s =
           (if trim input = [] then (Some msg_empty, s)
            else if \<exists>t\<in>set (todos s). lc (title t) = lc (trim input)
            then (Some msg_duplicate, s)
            else (None,
                  s\<lparr>todos := \<lparr>item_id = fresh, title = trim input, completed = False\<rparr> # todos s,
                    localStorage := (localStorage s)(LS_KEY \<mapsto>
                      stringify_todos
                        (\<lparr>item_id = fresh, title = trim input, completed = False\<rparr> # todos s))\<rparr>))"
    using assms
    by (simp add: submit_def Let_def list_ex_iff truthy_id_def saveTodos_def)
  ultimately show ?thesis by blast
qed


lemma scenarioC_fields:
  "editingId scenarioC = None" "localStorage scenarioC = Map.empty"
  by (simp_all add: scenarioC_def)

theorem add_inserts_at_front_witness:
  "editingId scenarioC = None \<and>
   titles_trimmed (todos scenarioC) \<and>
   (\<exists>t\<in>set (todos scenarioC). lower_ascii (trim (title t)) = lower_ascii (trim (js '' a''))) \<and>
   submit lower_ascii (js ''e5'') (js ''  Buy milk '') scenarioC =
     (None,
      scenarioC\<lparr>todos := \<lparr>item_id = js ''e5'', title = js ''Buy milk'', completed = False\<rparr> #
                   [itemA, itemB, itemC, itemD],
                localStorage := [LS_KEY \<mapsto>
                  stringify_todos (\<lparr>item_id = js ''e5'', title = js ''Buy milk'', completed = False\<rparr> #
                    [itemA, itemB, itemC, itemD])]\<rparr>) \<and>
   submit lower_ascii (js ''e5'') (js '' a'') scenarioC = (Some msg_duplicate, scenarioC) \<and>
   submit lower_ascii (js ''e5'') (js ''   '') scenarioC = (Some msg_empty, scenarioC)"
proof -
  have h: "editingId scenarioC = None"
    by (simp add: scenarioC_def)
  have t1: "trim (js ''  Buy milk '') = js ''Buy milk''"
    and t2: "trim (js '' a'') = js ''a''"
    and t3: "trim (js ''   '') = []"
    by (simp_all add: trim_def is_space_def)
  have d1: "\<not> (\<exists>t\<in>set (todos scenarioC). lower_ascii (title t) = lower_ascii (js ''Buy milk''))"
    by (simp add: scenarioC_simps itemA_def itemB_def itemC_def itemD_def lower_ascii_def)
  have d2: "\<exists>t\<in>set (todos scenarioC). lower_ascii (title t) = lower_ascii (js ''a'')"
    by (simp add: scenarioC_simps itemA_def itemB_def itemC_def itemD_def lower_ascii_def)
  note a = add_inserts_at_front [OF h, of lower_ascii, THEN conjunct1]
  have c1: "submit lower_ascii (js ''e5'') (js ''  Buy milk '') scenarioC =
     (None,
      scenarioC\<lparr>todos := \<lparr>item_id = js ''e5'', title = js ''Buy milk'', completed = False\<rparr> #
                   [itemA, itemB, itemC, itemD],
                localStorage := [LS_KEY \<mapsto>
                  stringify_todos (\<lparr>item_id = js ''e5'', title = js ''Buy milk'', completed = False\<rparr> #
                    [itemA, itemB, itemC, itemD])]\<rparr>)"
    using d1 by (simp only: a t1 scenarioC_simps scenarioC_fields) simp
  have c2: "submit lower_ascii (js ''e5'') (js '' a'') scenarioC = (Some msg_duplicate, scenarioC)"
    using d2 by (simp only: a t2) simp
  have c3: "submit lower_ascii (js ''e5'') (js ''   '') scenarioC = (Some msg_empty, scenarioC)"
    by (simp only: a t3) simp
  have tt: "titles_trimmed (todos scenarioC)"
    by (simp add: titles_trimmed_def scenarioC_simps trim_def is_space_def
        itemA_def itemB_def itemC_def itemD_def)
  from add_inserts_at_front [OF h, of lower_ascii "js ''e5''" "js '' a''", THEN conjunct2] tt d2
  have n: "\<exists>t\<in>set (todos scenarioC). lower_ascii (trim (title t)) = lower_ascii (trim (js '' a''))"
    by (simp only: t2 simp_thms)
  from h tt n c1 c2 c3 show ?thesis by blast
qed

lemma ex_other_id_conv:
  assumes d: "distinct (map item_id ts)" and idx: "idx < length ts"
  shows "(\<exists>t\<in>set ts. item_id t \<noteq> item_id (ts ! idx) \<and> P t) =
         (\<exists>j. j < length ts \<and> j \<noteq> idx \<and> P (ts ! j))"
proof -
  have eq: "\<And>j. j < length ts \<Longrightarrow> (item_id (ts ! j) \<noteq> item_id (ts ! idx)) = (j \<noteq> idx)"
    using d idx nth_eq_iff_index_eq [of "map item_id ts"] by (metis length_map nth_map)
  show ?thesis
  proof
    assume "\<exists>t\<in>set ts. item_id t \<noteq> item_id (ts ! idx) \<and> P t"
    then obtain t where t: "t \<in> set ts" "item_id t \<noteq> item_id (ts ! idx)" "P t" by blast
    from t(1) obtain j where j: "j < length ts" "ts ! j = t" by (auto simp: in_set_conv_nth)
    with t eq [of j] show "\<exists>j. j < length ts \<and> j \<noteq> idx \<and> P (ts ! j)" by auto
  next
    assume "\<exists>j. j < length ts \<and> j \<noteq> idx \<and> P (ts ! j)"
    then obtain j where j: "j < length ts" "j \<noteq> idx" "P (ts ! j)" by blast
    with eq [of j] show "\<exists>t\<in>set ts. item_id t \<noteq> item_id (ts ! idx) \<and> P t"
      by (metis nth_mem)
  qed
qed

lemma list_ex_dup_edit:
  "editingId s = Some i \<Longrightarrow>
   list_ex (\<lambda>t. lc (title t) = lc v \<and> Some (item_id t) \<noteq> editingId s) (todos s) =
     (\<exists>t\<in>set (todos s). item_id t \<noteq> i \<and> lc (title t) = lc v)"
  by (auto simp: list_ex_iff)

text \<open>
  C5: with the edit target \<open>i\<close>, a non-empty id that one item of \<open>todos\<close> has, and ids
  pairwise different, the submit handler trims the input; it alerts that the title is
  empty when the trimmed input is empty, and that the title exists when the lower-cased
  title of an item at another position equals the lower-cased trimmed input, and changes
  nothing in both cases; otherwise it sets the title of the item to the trimmed input
  where the item is, leaves every other item, all ids and all flags as they are, leaves
  edit mode and stores the serialised \<open>todos\<close>. Submitting the item's own title succeeds
  and leaves \<open>todos\<close> as it is, when I1 holds and titles are stored trimmed.
\<close>

theorem edit_updates_in_place:
  assumes "editingId s = Some i" and "i \<noteq> []"
    and "i \<in> set (map item_id (todos s))"
    and "distinct (map item_id (todos s))"
  shows "\<exists>idx. idx < length (todos s) \<and> item_id (todos s ! idx) = i \<and>
           submit lc fresh input s =
             (if trim input = [] then (Some msg_empty, s)
              else if \<exists>j. j < length (todos s) \<and> j \<noteq> idx \<and>
                          lc (title (todos s ! j)) = lc (trim input)
              then (Some msg_duplicate, s)
              else (None,
                    s\<lparr>todos := (todos s)[idx := (todos s ! idx)\<lparr>title := trim input\<rparr>],
                      editingId := None,
                      localStorage := (localStorage s)(LS_KEY \<mapsto>
                        stringify_todos
                          ((todos s)[idx := (todos s ! idx)\<lparr>title := trim input\<rparr>]))\<rparr>)) \<and>
           map item_id ((todos s)[idx := (todos s ! idx)\<lparr>title := trim input\<rparr>]) =
             map item_id (todos s) \<and>
           map completed ((todos s)[idx := (todos s ! idx)\<lparr>title := trim input\<rparr>]) =
             map completed (todos s) \<and>
           (\<forall>j. j < length (todos s) \<and> j \<noteq> idx \<longrightarrow>
              (todos s)[idx := (todos s ! idx)\<lparr>title := trim input\<rparr>] ! j = todos s ! j) \<and>
           (I1 lc (todos s) \<and> titles_trimmed (todos s) \<and> trim input \<noteq> [] \<and>
            title (todos s ! idx) = trim input \<longrightarrow>
              fst (submit lc fresh input s) = None \<and>
              todos (snd (submit lc fresh input s)) = todos s)"
proof -
  let ?ts = "todos s"
  from assms(3) have "findIndex (\<lambda>t. Some (item_id t) = editingId s) ?ts \<noteq> None"
    by (auto simp: findIndex_None assms(1))
  then obtain idx where f: "findIndex (\<lambda>t. Some (item_id t) = editingId s) ?ts = Some idx"
    by auto
  from findIndex_Some [OF f] assms(1)
  have idx: "idx < length ?ts" "item_id (?ts ! idx) = i"
    by auto
  let ?new = "?ts[idx := (?ts ! idx)\<lparr>title := trim input\<rparr>]"
  let ?dup = "\<exists>j. j < length ?ts \<and> j \<noteq> idx \<and> lc (title (?ts ! j)) = lc (trim input)"
  have dup: "list_ex (\<lambda>t. lc (title t) = lc (trim input) \<and> Some (item_id t) \<noteq> editingId s) ?ts = ?dup"
    using ex_other_id_conv [OF assms(4) idx(1), of "\<lambda>t. lc (title t) = lc (trim input)"]
    by (simp add: list_ex_dup_edit [OF assms(1)] idx(2))
  have sub: "submit lc fresh input s =
             (if trim input = [] then (Some msg_empty, s)
              else if ?dup then (Some msg_duplicate, s)
              else (None,
                    s\<lparr>todos := ?new, editingId := None,
                      localStorage := (localStorage s)(LS_KEY \<mapsto> stringify_todos ?new)\<rparr>))"
  proof -
    from f assms(1) have f': "findIndex (\<lambda>t. item_id t = i) ?ts = Some idx"
      by simp
    from dup assms(1) have dup': "list_ex (\<lambda>t. lc (title t) = lc (trim input) \<and> item_id t \<noteq> i) ?ts = ?dup"
      by simp
    show ?thesis
      using assms(1,2) by (auto simp add: submit_def Let_def dup' f' truthy_id_def saveTodos_def)
  qed
  have ids: "map item_id ?new = map item_id ?ts"
    using idx by (simp add: map_update list_update_same_conv)
  have flags: "map completed ?new = map completed ?ts"
    using idx by (simp add: map_update list_update_same_conv)
  have others: "\<forall>j. j < length ?ts \<and> j \<noteq> idx \<longrightarrow> ?new ! j = ?ts ! j"
    by simp
  have own: "I1 lc ?ts \<and> titles_trimmed ?ts \<and> trim input \<noteq> [] \<and> title (?ts ! idx) = trim input \<longrightarrow>
              fst (submit lc fresh input s) = None \<and> todos (snd (submit lc fresh input s)) = ?ts"
  proof
    assume a: "I1 lc ?ts \<and> titles_trimmed ?ts \<and> trim input \<noteq> [] \<and> title (?ts ! idx) = trim input"
    then have dist: "distinct (map (\<lambda>t. lc (trim (title t))) ?ts)"
      and tr: "\<forall>t\<in>set ?ts. trim (title t) = title t"
      by (simp_all add: I1_def titles_trimmed_def list_all_iff)
    have "\<not> ?dup"
    proof
      assume ?dup
      then obtain j where j: "j < length ?ts" "j \<noteq> idx" "lc (title (?ts ! j)) = lc (trim input)"
        by blast
      from tr j(1) idx(1) have "lc (trim (title (?ts ! j))) = lc (title (?ts ! j))"
        "lc (trim (title (?ts ! idx))) = lc (title (?ts ! idx))"
        by simp_all
      with j(3) a have "map (\<lambda>t. lc (trim (title t))) ?ts ! j = map (\<lambda>t. lc (trim (title t))) ?ts ! idx"
        using j(1) idx(1) by simp
      with dist j(1) idx(1) have "j = idx"
        using nth_eq_iff_index_eq [of "map (\<lambda>t. lc (trim (title t))) ?ts" j idx] by simp
      with j(2) show False by simp
    qed
    moreover from a have "?new = ?ts"
      using idx(1) by (simp add: list_update_same_conv)
    ultimately show "fst (submit lc fresh input s) = None \<and> todos (snd (submit lc fresh input s)) = ?ts"
      using a by (simp add: sub)
  qed
  from idx sub ids flags others own show ?thesis
    by blast
qed


theorem edit_updates_in_place_witness:
  "editingId (scenarioC\<lparr>editingId := Some (js ''a1'')\<rparr>) = Some (js ''a1'') \<and>
   js ''a1'' \<noteq> [] \<and>
   js ''a1'' \<in> set (map item_id (todos (scenarioC\<lparr>editingId := Some (js ''a1'')\<rparr>))) \<and>
   distinct (map item_id (todos (scenarioC\<lparr>editingId := Some (js ''a1'')\<rparr>))) \<and>
   I1 lower_ascii (todos (scenarioC\<lparr>editingId := Some (js ''a1'')\<rparr>)) \<and>
   titles_trimmed (todos (scenarioC\<lparr>editingId := Some (js ''a1'')\<rparr>)) \<and>
   title (todos (scenarioC\<lparr>editingId := Some (js ''a1'')\<rparr>) ! 0) = trim (js ''A'') \<and>
   submit lower_ascii (js ''zz'') (js '' c '') (scenarioC\<lparr>editingId := Some (js ''a1'')\<rparr>) =
     (Some msg_duplicate, scenarioC\<lparr>editingId := Some (js ''a1'')\<rparr>) \<and>
   fst (submit lower_ascii (js ''zz'') (js ''A'') (scenarioC\<lparr>editingId := Some (js ''a1'')\<rparr>)) = None \<and>
   todos (snd (submit lower_ascii (js ''zz'') (js ''A'') (scenarioC\<lparr>editingId := Some (js ''a1'')\<rparr>))) =
     [itemA, itemB, itemC, itemD] \<and>
   todos (snd (submit lower_ascii (js ''zz'') (js '' Apple '') (scenarioC\<lparr>editingId := Some (js ''a1'')\<rparr>))) =
     [itemA\<lparr>title := js ''Apple''\<rparr>, itemB, itemC, itemD]"
proof -
  let ?s = "scenarioC\<lparr>editingId := Some (js ''a1'')\<rparr>"
  have h1: "editingId ?s = Some (js ''a1'')" by simp
  have h2: "js ''a1'' \<noteq> []" by simp
  have ts: "todos ?s = [itemA, itemB, itemC, itemD]"
    by (simp add: scenarioC_simps)
  have h3: "js ''a1'' \<in> set (map item_id (todos ?s))"
    by (simp add: scenarioC_simps item_ids_simps)
  have h4: "distinct (map item_id (todos ?s))"
    by (simp add: scenarioC_simps item_ids_simps)
  have c1: "submit lower_ascii (js ''zz'') (js '' c '') ?s = (Some msg_duplicate, ?s)"
    by (simp add: submit_def Let_def trim_def is_space_def lower_ascii_def scenarioC_def
        itemA_def itemB_def itemC_def itemD_def)
  have c2: "fst (submit lower_ascii (js ''zz'') (js ''A'') ?s) = None"
    by (simp add: submit_def Let_def trim_def is_space_def lower_ascii_def scenarioC_def
        itemA_def itemB_def itemC_def itemD_def)
  have c3: "todos (snd (submit lower_ascii (js ''zz'') (js ''A'') ?s)) = [itemA, itemB, itemC, itemD]"
    by (simp add: submit_def trim_def is_space_def lower_ascii_def scenarioC_def truthy_id_def
        itemA_def itemB_def itemC_def itemD_def)
  have c4: "todos (snd (submit lower_ascii (js ''zz'') (js '' Apple '') ?s)) =
      [itemA\<lparr>title := js ''Apple''\<rparr>, itemB, itemC, itemD]"
    by (simp add: submit_def trim_def is_space_def lower_ascii_def scenarioC_def truthy_id_def
        itemA_def itemB_def itemC_def itemD_def)
  have h5: "I1 lower_ascii (todos ?s)"
    by (simp add: I1_def scenarioC_simps trim_def is_space_def lower_ascii_def
        itemA_def itemB_def itemC_def itemD_def)
  have h6: "titles_trimmed (todos ?s)"
    by (simp add: titles_trimmed_def scenarioC_simps trim_def is_space_def
        itemA_def itemB_def itemC_def itemD_def)
  have h7: "title (todos ?s ! 0) = trim (js ''A'')"
    by (simp add: scenarioC_simps trim_def is_space_def itemA_def)
  from edit_updates_in_place [OF h1 h2 h3 h4, of lower_ascii "js ''zz''" "js ''A''"]
    h1 h2 h3 h4 h5 h6 h7 c1 c2 c3 c4
  show ?thesis
    by blast
qed

section \<open>Failing operations\<close>

lemma filter_other_ids:
  "i \<notin> set (map item_id ts) \<Longrightarrow> filter (\<lambda>t. item_id t \<noteq> i) ts = ts"
  by (induction ts) auto

text \<open>
  C6: a submit with an empty trimmed input, or with a title that the duplicate check
  finds, alerts and returns the state as it was; whenever the submit handler alerts, the
  state is as it was. A submit in edit mode whose target is the id of no item, a
  checkbox change and a deletion for an id that no item has leave \<open>todos\<close> as it was.
\<close>

theorem failing_operations_change_nothing:
  "(trim ina = [] \<longrightarrow> submit lc fra ina sa = (Some msg_empty, sa)) \<and>
   (trim inb \<noteq> [] \<and>
    (\<exists>t\<in>set (todos sb). lc (title t) = lc (trim inb) \<and> Some (item_id t) \<noteq> editingId sb) \<longrightarrow>
      submit lc frb inb sb = (Some msg_duplicate, sb)) \<and>
   (fst (submit lc frc inc sc) \<noteq> None \<longrightarrow> snd (submit lc frc inc sc) = sc) \<and>
   (editingId sd = Some tgt \<and> tgt \<noteq> [] \<and> tgt \<notin> set (map item_id (todos sd)) \<longrightarrow>
      todos (snd (submit lc frd ind sd)) = todos sd) \<and>
   (ide \<notin> set (map item_id (todos se)) \<longrightarrow> chk_change ide checked se = se) \<and>
   (idf \<notin> set (map item_id (todos sf)) \<longrightarrow> todos (del_click idf ok sf) = todos sf)"
proof -
  have a: "trim ina = [] \<longrightarrow> submit lc fra ina sa = (Some msg_empty, sa)"
    by (simp add: submit_def)
  have b: "trim inb \<noteq> [] \<and>
    (\<exists>t\<in>set (todos sb). lc (title t) = lc (trim inb) \<and> Some (item_id t) \<noteq> editingId sb) \<longrightarrow>
      submit lc frb inb sb = (Some msg_duplicate, sb)"
    by (simp add: submit_def Let_def list_ex_iff)
  have c: "fst (submit lc frc inc sc) \<noteq> None \<longrightarrow> snd (submit lc frc inc sc) = sc"
    by (simp add: submit_def Let_def)
  have d: "editingId sd = Some tgt \<and> tgt \<noteq> [] \<and> tgt \<notin> set (map item_id (todos sd)) \<longrightarrow>
      todos (snd (submit lc frd ind sd)) = todos sd"
  proof
    assume h: "editingId sd = Some tgt \<and> tgt \<noteq> [] \<and> tgt \<notin> set (map item_id (todos sd))"
    then have "findIndex (\<lambda>t. Some (item_id t) = editingId sd) (todos sd) = None"
      by (auto simp: findIndex_None)
    with h show "todos (snd (submit lc frd ind sd)) = todos sd"
      by (simp add: submit_def Let_def truthy_id_def)
  qed
  have e: "ide \<notin> set (map item_id (todos se)) \<longrightarrow> chk_change ide checked se = se"
  proof
    assume "ide \<notin> set (map item_id (todos se))"
    then have "findIndex (\<lambda>t. item_id t = ide) (todos se) = None"
      by (auto simp: findIndex_None)
    then show "chk_change ide checked se = se"
      by (simp add: chk_change_def)
  qed
  have f: "idf \<notin> set (map item_id (todos sf)) \<longrightarrow> todos (del_click idf ok sf) = todos sf"
    by (simp add: del_click_def filter_other_ids)
  from a b c d e f show ?thesis
    by blast
qed

theorem failing_operations_change_nothing_witness:
  "trim (js ''   '') = [] \<and>
   submit lower_ascii (js ''e5'') (js ''   '') scenarioC = (Some msg_empty, scenarioC) \<and>
   trim (js '' a'') \<noteq> [] \<and>
   (\<exists>t\<in>set (todos scenarioC).
      lower_ascii (title t) = lower_ascii (trim (js '' a'')) \<and>
      Some (item_id t) \<noteq> editingId scenarioC) \<and>
   submit lower_ascii (js ''e5'') (js '' a'') scenarioC = (Some msg_duplicate, scenarioC) \<and>
   fst (submit lower_ascii (js ''e5'') (js '' a'') scenarioC) \<noteq> None \<and>
   snd (submit lower_ascii (js ''e5'') (js '' a'') scenarioC) = scenarioC \<and>
   editingId (scenarioC\<lparr>editingId := Some (js ''gone'')\<rparr>) = Some (js ''gone'') \<and>
   js ''gone'' \<noteq> [] \<and>
   js ''gone'' \<notin> set (map item_id (todos (scenarioC\<lparr>editingId := Some (js ''gone'')\<rparr>))) \<and>
   todos (snd (submit lower_ascii (js ''e5'') (js ''New'') (scenarioC\<lparr>editingId := Some (js ''gone'')\<rparr>))) =
     todos (scenarioC\<lparr>editingId := Some (js ''gone'')\<rparr>) \<and>
   js ''gone'' \<notin> set (map item_id (todos scenarioC)) \<and>
   chk_change (js ''gone'') True scenarioC = scenarioC \<and>
   todos (del_click (js ''gone'') True scenarioC) = todos scenarioC"
proof -
  let ?g = "js ''gone''"
  let ?s4 = "scenarioC\<lparr>editingId := Some ?g\<rparr>"
  have t1: "trim (js ''   '') = []"
    and t2: "trim (js '' a'') \<noteq> []"
    by (simp_all add: trim_def is_space_def)
  have h2: "\<exists>t\<in>set (todos scenarioC).
      lower_ascii (title t) = lower_ascii (trim (js '' a'')) \<and>
      Some (item_id t) \<noteq> editingId scenarioC"
    by (simp add: scenarioC_simps scenarioC_fields trim_def is_space_def lower_ascii_def itemA_def)
  have h4: "editingId ?s4 = Some ?g \<and> ?g \<noteq> [] \<and> ?g \<notin> set (map item_id (todos ?s4))"
    by (simp add: scenarioC_simps item_ids_simps)
  have h5: "?g \<notin> set (map item_id (todos scenarioC))"
    by (simp add: scenarioC_simps item_ids_simps)
  note th = failing_operations_change_nothing [where lc = lower_ascii
      and ina = "js ''   ''" and fra = "js ''e5''" and sa = scenarioC
      and inb = "js '' a''" and frb = "js ''e5''" and sb = scenarioC
      and inc = "js '' a''" and frc = "js ''e5''" and sc = scenarioC
      and ind = "js ''New''" and frd = "js ''e5''" and sd = ?s4 and tgt = ?g
      and ide = ?g and se = scenarioC and checked = True
      and idf = ?g and sf = scenarioC and ok = True]
  from th t1 have c1: "submit lower_ascii (js ''e5'') (js ''   '') scenarioC = (Some msg_empty, scenarioC)"
    by blast
  from th t2 h2 have c2: "submit lower_ascii (js ''e5'') (js '' a'') scenarioC = (Some msg_duplicate, scenarioC)"
    by blast
  from c2 have c3: "fst (submit lower_ascii (js ''e5'') (js '' a'') scenarioC) \<noteq> None"
    "snd (submit lower_ascii (js ''e5'') (js '' a'') scenarioC) = scenarioC"
    by simp_all
  from th h4 have c4: "todos (snd (submit lower_ascii (js ''e5'') (js ''New'') ?s4)) = todos ?s4"
    by blast
  from th h5 have c5: "chk_change ?g True scenarioC = scenarioC"
    "todos (del_click ?g True scenarioC) = todos scenarioC"
    by blast+
  from t1 t2 h2 h4 h5 c1 c2 c3 c4 c5 show ?thesis
    by blast
qed

section \<open>The invariant of the handlers\<close>

lemma last_dropWhile:
  "dropWhile P xs \<noteq> [] \<Longrightarrow> last (dropWhile P xs) = last xs"
  by (induction xs) (auto split: if_splits)

lemma trim_idem: "trim (trim s) = trim s"
proof -
  define a where "a = dropWhile is_space s"
  define c where "c = dropWhile is_space (rev a)"
  have t: "trim s = rev c"
    by (simp add: trim_def a_def c_def)
  have front: "dropWhile is_space (rev c) = rev c"
  proof (cases "c = []")
    case True
    then show ?thesis by simp
  next
    case False
    then have "rev a \<noteq> []"
      by (auto simp: c_def)
    then have an: "a \<noteq> []" by simp
    from False have "last c = last (rev a)"
      unfolding c_def by (rule last_dropWhile)
    with an have "last c = hd a"
      by (simp add: last_rev)
    moreover have "\<not> is_space (hd a)"
      using an unfolding a_def by (rule hd_dropWhile)
    ultimately have "\<not> is_space (hd (rev c))"
      using False by (simp add: hd_rev)
    with False show ?thesis
      by (cases "rev c") auto
  qed
  have tail_ok: "dropWhile is_space c = c"
    by (simp add: c_def)
  have "trim (rev c) = rev c"
    by (simp add: trim_def front tail_ok)
  with t show ?thesis by simp
qed

lemma unique_ids_alt:
  "unique_ids xs = (distinct (map item_id xs) \<and> [] \<notin> set (map item_id xs))"
  by (force simp: unique_ids_def list_all_iff)

lemma unique_ids_cong:
  "map item_id ts' = map item_id ts \<Longrightarrow> unique_ids ts' = unique_ids ts"
  by (simp only: unique_ids_alt)

lemma inv_maps:
  assumes "map item_id ts' = map item_id ts" and "map title ts' = map title ts"
  shows "unique_ids ts' = unique_ids ts"
    and "titles_trimmed ts' = titles_trimmed ts"
    and "I1 lc ts' = I1 lc ts"
proof -
  have t: "\<And>xs. titles_trimmed xs = (\<forall>x\<in>set (map title xs). trim x = x)"
    by (auto simp: titles_trimmed_def list_all_iff)
  have i: "\<And>xs. I1 lc xs = distinct (map (\<lambda>x. lc (trim x)) (map title xs))"
    by (simp add: I1_def comp_def)
  show "unique_ids ts' = unique_ids ts"
    using assms(1) by (rule unique_ids_cong)
  show "titles_trimmed ts' = titles_trimmed ts"
    by (simp only: t assms)
  show "I1 lc ts' = I1 lc ts"
    by (simp only: i assms)
qed

lemma inv_mset:
  assumes "mset ts' = mset ts"
  shows "unique_ids ts' = unique_ids ts"
    and "titles_trimmed ts' = titles_trimmed ts"
    and "I1 lc ts' = I1 lc ts"
proof -
  from assms have s: "set ts' = set ts"
    by (rule mset_eq_setD)
  from assms have m: "\<And>f. mset (map f ts') = mset (map f ts)"
    by simp
  have d: "\<And>f. distinct (map f ts') = distinct (map f ts)"
    using m by (rule mset_eq_imp_distinct_iff)
  show "unique_ids ts' = unique_ids ts"
    by (simp add: unique_ids_def list_all_iff s d)
  show "titles_trimmed ts' = titles_trimmed ts"
    by (simp add: titles_trimmed_def list_all_iff s)
  show "I1 lc ts' = I1 lc ts"
    by (simp add: I1_def d)
qed

lemma inv_filter:
  assumes "unique_ids ts" and "titles_trimmed ts" and "I1 lc ts"
  shows "unique_ids (filter P ts) \<and> titles_trimmed (filter P ts) \<and> I1 lc (filter P ts)"
  using assms
  by (auto simp: unique_ids_def titles_trimmed_def I1_def list_all_iff distinct_map_filter)

lemma inv_add:
  assumes u: "unique_ids ts" and t: "titles_trimmed ts" and i: "I1 lc ts"
    and fresh: "fresh \<noteq> []" "fresh \<notin> set (map item_id ts)"
    and nodup: "\<forall>x\<in>set ts. lc (title x) \<noteq> lc (trim input)"
  shows "unique_ids (\<lparr>item_id = fresh, title = trim input, completed = False\<rparr> # ts) \<and>
         titles_trimmed (\<lparr>item_id = fresh, title = trim input, completed = False\<rparr> # ts) \<and>
         I1 lc (\<lparr>item_id = fresh, title = trim input, completed = False\<rparr> # ts)"
proof -
  from t have tr: "\<forall>x\<in>set ts. trim (title x) = title x"
    by (simp add: titles_trimmed_def list_all_iff)
  with nodup have "lc (trim input) \<notin> set (map (\<lambda>t. lc (trim (title t))) ts)"
    by auto
  with u t i fresh show ?thesis
    by (simp add: unique_ids_def titles_trimmed_def I1_def trim_idem)
qed

lemma inv_edit:
  assumes u: "unique_ids ts" and t: "titles_trimmed ts" and i: "I1 lc ts"
    and idx: "idx < length ts"
    and nodup: "\<forall>x\<in>set ts. lc (title x) = lc (trim input) \<longrightarrow> item_id x = item_id (ts ! idx)"
  shows "unique_ids (ts[idx := (ts ! idx)\<lparr>title := trim input\<rparr>]) \<and>
         titles_trimmed (ts[idx := (ts ! idx)\<lparr>title := trim input\<rparr>]) \<and>
         I1 lc (ts[idx := (ts ! idx)\<lparr>title := trim input\<rparr>])"
proof -
  let ?new = "ts[idx := (ts ! idx)\<lparr>title := trim input\<rparr>]"
  let ?n = "\<lambda>t. lc (trim (title t))"
  have ids: "map item_id ?new = map item_id ts"
    using idx by (simp add: map_update list_update_same_conv)
  from u unique_ids_cong [OF ids] have u': "unique_ids ?new"
    by simp
  from t have tr: "\<forall>x\<in>set ts. trim (title x) = title x"
    by (simp add: titles_trimmed_def list_all_iff)
  have t': "titles_trimmed ?new"
    unfolding titles_trimmed_def list_all_iff
  proof
    fix x assume "x \<in> set ?new"
    then have "x = (ts ! idx)\<lparr>title := trim input\<rparr> \<or> x \<in> set ts"
      using set_update_subset_insert [of ts idx] by auto
    with tr show "trim (title x) = title x"
      by (auto simp: trim_idem)
  qed
  have m: "map ?n ?new = (map ?n ts)[idx := lc (trim input)]"
    by (simp add: map_update trim_idem)
  have "lc (trim input) \<notin> set (map ?n ts) - {map ?n ts ! idx}"
  proof
    assume "lc (trim input) \<in> set (map ?n ts) - {map ?n ts ! idx}"
    then obtain x where x: "x \<in> set ts" "?n x = lc (trim input)" "?n x \<noteq> ?n (ts ! idx)"
      using idx by auto
    from x(1,2) tr have "lc (title x) = lc (trim input)" by simp
    with nodup x(1) have same: "item_id x = item_id (ts ! idx)" by simp
    from x(1) obtain j where j: "j < length ts" "ts ! j = x"
      by (auto simp: in_set_conv_nth)
    from u have "distinct (map item_id ts)" by (simp add: unique_ids_def)
    with same j idx have "j = idx"
      using nth_eq_iff_index_eq [of "map item_id ts" j idx] by simp
    with j x(3) show False by simp
  qed
  with i have "distinct ((map ?n ts)[idx := lc (trim input)])"
    unfolding I1_def by (rule distinct_list_update)
  with m have i': "I1 lc ?new"
    by (simp add: I1_def)
  from u' t' i' show ?thesis by simp
qed


lemma chk_change_maps:
  "map item_id (todos (chk_change i checked s)) = map item_id (todos s) \<and>
   map title (todos (chk_change i checked s)) = map title (todos s)"
proof (cases "findIndex (\<lambda>t. item_id t = i) (todos s)")
  case None
  then show ?thesis by (simp add: chk_change_def)
next
  case (Some idx)
  from findIndex_Some [OF Some] have "idx < length (todos s)" by simp
  with Some show ?thesis
    by (simp add: chk_change_def map_update list_update_same_conv)
qed

lemma submit_preserves:
  assumes u: "unique_ids (todos s)" and t: "titles_trimmed (todos s)" and i: "I1 lc (todos s)"
    and fresh: "fresh \<noteq> []" "fresh \<notin> set (map item_id (todos s))"
  shows "unique_ids (todos (snd (submit lc fresh input s))) \<and>
         titles_trimmed (todos (snd (submit lc fresh input s))) \<and>
         I1 lc (todos (snd (submit lc fresh input s)))"
proof -
  let ?ts = "todos s"
  let ?dup = "list_ex (\<lambda>t. lc (title t) = lc (trim input) \<and> Some (item_id t) \<noteq> editingId s) ?ts"
  consider (alert) "trim input = [] \<or> ?dup"
    | (missing) "trim input \<noteq> []" "\<not> ?dup" "truthy_id (editingId s)"
        "findIndex (\<lambda>t. Some (item_id t) = editingId s) ?ts = None"
    | (edit) idx where "trim input \<noteq> []" "\<not> ?dup" "truthy_id (editingId s)"
        "findIndex (\<lambda>t. Some (item_id t) = editingId s) ?ts = Some idx"
    | (add) "trim input \<noteq> []" "\<not> ?dup" "\<not> truthy_id (editingId s)"
    by (cases "findIndex (\<lambda>t. Some (item_id t) = editingId s) ?ts") auto
  then show ?thesis
  proof cases
    case alert
    then have "snd (submit lc fresh input s) = s"
      by (auto simp: submit_def Let_def)
    with u t i show ?thesis by simp
  next
    case missing
    then have "todos (snd (submit lc fresh input s)) = ?ts"
      by (simp add: submit_def Let_def)
    with u t i show ?thesis by simp
  next
    case edit
    from findIndex_Some [OF edit(4)]
    have idx: "idx < length ?ts" "Some (item_id (?ts ! idx)) = editingId s"
      by auto
    from edit(2) idx(2)
    have nodup: "\<forall>x\<in>set ?ts. lc (title x) = lc (trim input) \<longrightarrow> item_id x = item_id (?ts ! idx)"
      by (simp add: list_ex_iff) (metis option.inject)
    from edit have "todos (snd (submit lc fresh input s)) = ?ts[idx := (?ts ! idx)\<lparr>title := trim input\<rparr>]"
      by (simp add: submit_def Let_def)
    with inv_edit [OF u t i idx(1) nodup] show ?thesis by simp
  next
    case add
    from u have nonempty: "\<forall>x\<in>set ?ts. item_id x \<noteq> []"
      by (simp add: unique_ids_def list_all_iff)
    from add(3) have "editingId s = None \<or> editingId s = Some []"
      by (auto simp: truthy_id_def split: option.splits)
    with add(2) nonempty have nodup: "\<forall>x\<in>set ?ts. lc (title x) \<noteq> lc (trim input)"
      by (auto simp: list_ex_iff)
    from add have "todos (snd (submit lc fresh input s)) =
        \<lparr>item_id = fresh, title = trim input, completed = False\<rparr> # ?ts"
      by (simp add: submit_def Let_def)
    with inv_add [OF u t i fresh nodup] show ?thesis by simp
  qed
qed

lemma handle_preserves:
  assumes u: "unique_ids (todos s)" and t: "titles_trimmed (todos s)" and i: "I1 lc (todos s)"
    and p: "provided lc e s"
  shows "unique_ids (todos (handle lc e s)) \<and> titles_trimmed (todos (handle lc e s)) \<and>
         I1 lc (todos (handle lc e s))"
proof (cases e)
  case (Submit fresh input)
  with p submit_preserves [OF u t i, of fresh input] show ?thesis by simp
next
  case (ChkChange j checked)
  note m = chk_change_maps [of j checked s]
  from u t i inv_maps [OF m [THEN conjunct1] m [THEN conjunct2]] ChkChange
  show ?thesis by simp
next
  case (DelClick j ok)
  with u t i inv_filter [OF u t i, of "\<lambda>t. item_id t \<noteq> j"] show ?thesis
    by (simp add: del_click_def)
next
  case (StartEdit j)
  with u t i show ?thesis by (simp add: startEdit_def split: option.splits)
next
  case (FilterClick f)
  with u t i show ?thesis by (simp add: filter_click_def)
next
  case (SearchInput q)
  with u t i show ?thesis by (simp add: search_input_def)
next
  case (ClearClick ok)
  with u t i show ?thesis
    by (simp add: clear_click_def unique_ids_def titles_trimmed_def I1_def)
next
  case (DragEnd ids)
  from u have d: "distinct (map item_id (todos s))"
    by (simp add: unique_ids_def)
  from p DragEnd have "mset ids = mset (map item_id (shown lc s))" by simp
  with distinct_ids_shown [OF d, of lc] have "distinct ids"
    by (metis mset_eq_imp_distinct_iff)
  from inv_mset [OF mset_onEnd [OF d this]] u t i DragEnd
  show ?thesis by simp
next
  case BeforeUnload
  with u t i show ?thesis by simp
qed

lemma run_preserves:
  "unique_ids (todos s0) \<Longrightarrow> titles_trimmed (todos s0) \<Longrightarrow> I1 lc (todos s0) \<Longrightarrow>
   run lc es s0 = Some s \<Longrightarrow>
   unique_ids (todos s) \<and> titles_trimmed (todos s) \<and> I1 lc (todos s)"
proof (induction es arbitrary: s0)
  case Nil
  then show ?case by simp
next
  case (Cons e es)
  from Cons.prems(4) have p: "provided lc e s0" and r: "run lc es (handle lc e s0) = Some s"
    by (auto split: if_splits)
  from handle_preserves [OF Cons.prems(1-3) p] Cons.IH [OF _ _ _ r] show ?case
    by blast
qed

section \<open>Serialising and parsing\<close>

lemma hexval_of_nat:
  assumes "m < 65536"
  shows "hexval (of_nat m) =
     (if 48 \<le> m \<and> m \<le> 57 then Some (m - 48)
      else if 97 \<le> m \<and> m \<le> 102 then Some (m - 87)
      else if 65 \<le> m \<and> m \<le> 70 then Some (m - 55)
      else None)"
proof -
  have u: "unat (of_nat m :: 16 word) = m"
    using assms by (simp add: unat_of_nat)
  show ?thesis
    by (simp add: hexval_def word_le_nat_alt u)
qed

lemma hexval_hexdigit: "n < 16 \<Longrightarrow> hexval (hexdigit n) = Some n"
proof (cases "n < 10")
  case True
  then have "hexval (of_nat (48 + n)) = Some n"
    by (subst hexval_of_nat) simp_all
  with True show ?thesis
    by (simp only: hexdigit_def if_True)
next
  case False
  assume "n < 16"
  with False have "hexval (of_nat (87 + n)) = Some n"
    by (subst hexval_of_nat) simp_all
  with False show ?thesis
    by (simp only: hexdigit_def if_False)
qed

lemma hex_digits_sum:
  assumes "x < 65536"
  shows "((x div 4096 mod 16 * 16 + x div 256 mod 16) * 16 + x div 16 mod 16) * 16 + x mod 16 = (x::nat)"
proof -
  have c: "x div 256 = x div 16 div 16"
    using div_mult2_eq [of x 16 16] by simp
  have b: "x div 4096 = x div 16 div 16 div 16"
    using div_mult2_eq [of x 256 16] by (simp add: c)
  have "x div 4096 < 16"
    using assms by (simp add: less_mult_imp_div_less)
  then have a: "x div 16 div 16 div 16 mod 16 = x div 16 div 16 div 16"
    by (simp add: b)
  have f1: "x div 16 div 16 div 16 * 16 + x div 16 div 16 mod 16 = x div 16 div 16"
    by simp
  have f2: "x div 16 div 16 * 16 + x div 16 mod 16 = x div 16"
    by simp
  have f3: "x div 16 * 16 + x mod 16 = x"
    by simp
  show ?thesis
    by (simp only: b c a f1 f2 f3)
qed

lemma hex4_unicode_escape:
  "hex4 (hexdigit (unat c div 4096 mod 16)) (hexdigit (unat c div 256 mod 16))
        (hexdigit (unat c div 16 mod 16)) (hexdigit (unat c mod 16)) = Some (c :: 16 word)"
proof -
  have "unat c < 65536"
    using unsigned_less [of c, where 'a = nat] by simp
  then have "of_nat (((unat c div 4096 mod 16 * 16 + unat c div 256 mod 16) * 16 +
      unat c div 16 mod 16) * 16 + unat c mod 16) = c"
    by (simp only: hex_digits_sum of_nat_unat) simp
  then show ?thesis
    by (simp add: hex4_def hexval_hexdigit del: of_nat_add of_nat_mult)
qed

lemma escape_unescape:
  "escape_char c = Some e \<Longrightarrow> e \<noteq> 0x75 \<and> unescape e = Some c"
  by (auto simp: escape_char_def unescape_def split: if_splits)

lemma escape_None:
  "escape_char c = None \<Longrightarrow> c \<noteq> 0x22 \<and> c \<noteq> 0x5C"
  by (auto simp: escape_char_def split: if_splits)

lemma surrogate_plain:
  "is_lead c \<or> is_trail c \<Longrightarrow> c \<noteq> 0x22 \<and> c \<noteq> 0x5C \<and> \<not> c < 0x20"
  by (auto simp: is_lead_def is_trail_def word_le_nat_alt word_less_nat_alt)


lemma scan_unicode:
  "scan_string (unicode_escape c @ rest) =
     map_option (\<lambda>(str, k). (c # str, k + 6)) (scan_string rest)"
  by (simp add: unicode_escape_def hex4_unicode_escape)

lemma scan_escape:
  "escape_char c = Some e \<Longrightarrow>
   scan_string (0x5C # e # rest) = map_option (\<lambda>(str, k). (c # str, k + 2)) (scan_string rest)"
  using escape_unescape [of c e] by simp

lemma scan_plain:
  "c \<noteq> 0x22 \<Longrightarrow> c \<noteq> 0x5C \<Longrightarrow> \<not> c < 0x20 \<Longrightarrow>
   scan_string (c # rest) = map_option (\<lambda>(str, k). (c # str, k + 1)) (scan_string rest)"
  by simp

lemma length_unicode_escape [simp]: "length (unicode_escape c) = 6"
  by (simp add: unicode_escape_def)

lemma scan_string_quote_body:
  "scan_string (quote_body s @ 0x22 # r) = Some (s, length (quote_body s) + 1)"
proof (induction s rule: quote_body.induct)
  case 1
  show ?case by simp
next
  case (2 c cs)
  show ?case
  proof (cases "escape_char c")
    case (Some e)
    then have q: "quote_body (c # cs) = 0x5C # e # quote_body cs"
      by simp
    from "2.IH" Some have "scan_string (quote_body cs @ 0x22 # r) = Some (cs, length (quote_body cs) + 1)"
      by blast
    then show ?thesis
      by (simp add: q scan_escape [OF Some] del: scan_string.simps quote_body.simps)
  next
    case None
    note esc = escape_None [OF None]
    consider (ctl) "c < 0x20"
      | (pair) d ds where "\<not> c < 0x20" "is_lead c" "cs = d # ds" "is_trail d"
      | (lead_end) "\<not> c < 0x20" "is_lead c" "cs = []"
      | (lead_lone) d ds where "\<not> c < 0x20" "is_lead c" "cs = d # ds" "\<not> is_trail d"
      | (trail_lone) "\<not> c < 0x20" "\<not> is_lead c" "is_trail c"
      | (plain) "\<not> c < 0x20" "\<not> is_lead c" "\<not> is_trail c"
      by (cases cs) auto
    then show ?thesis
    proof cases
      case ctl
      then have q: "quote_body (c # cs) = unicode_escape c @ quote_body cs"
        using None by simp
      from "2.IH" None ctl have "scan_string (quote_body cs @ 0x22 # r) = Some (cs, length (quote_body cs) + 1)"
        by blast
      then show ?thesis
        by (simp add: q scan_unicode del: scan_string.simps quote_body.simps)
    next
      case pair
      then have q: "quote_body (c # d # ds) = c # d # quote_body ds"
        using None by simp
      from surrogate_plain [of c] pair(2) have pc: "c \<noteq> 0x22" "c \<noteq> 0x5C" "\<not> c < 0x20"
        by simp_all
      from surrogate_plain [of d] pair(4) have pd: "d \<noteq> 0x22" "d \<noteq> 0x5C" "\<not> d < 0x20"
        by simp_all
      from "2.IH" None pair have "scan_string (quote_body ds @ 0x22 # r) = Some (ds, length (quote_body ds) + 1)"
        by blast
      then show ?thesis
        by (simp add: q pair(3) scan_plain [OF pc] scan_plain [OF pd]
            del: scan_string.simps quote_body.simps)
    next
      case lead_end
      then have q: "quote_body [c] = unicode_escape c"
        using None by simp
      have "scan_string (unicode_escape c @ 0x22 # r) = Some ([c], 7)"
        by (simp add: scan_unicode del: scan_string.simps) simp
      then show ?thesis
        by (simp add: q lead_end(3) del: scan_string.simps quote_body.simps)
    next
      case lead_lone
      then have q: "quote_body (c # d # ds) = unicode_escape c @ quote_body (d # ds)"
        using None by simp
      from "2.IH" None lead_lone have "scan_string (quote_body (d # ds) @ 0x22 # r) = Some (d # ds, length (quote_body (d # ds)) + 1)"
        by blast
      then show ?thesis
        by (simp add: q lead_lone(3) scan_unicode del: scan_string.simps quote_body.simps)
    next
      case trail_lone
      then have q: "quote_body (c # cs) = unicode_escape c @ quote_body cs"
        using None by simp
      from "2.IH" None trail_lone have "scan_string (quote_body cs @ 0x22 # r) = Some (cs, length (quote_body cs) + 1)"
        by blast
      then show ?thesis
        by (simp add: q scan_unicode del: scan_string.simps quote_body.simps)
    next
      case plain
      then have q: "quote_body (c # cs) = c # quote_body cs"
        using None by simp
      from "2.IH" None plain have "scan_string (quote_body cs @ 0x22 # r) = Some (cs, length (quote_body cs) + 1)"
        by blast
      then show ?thesis
        by (simp add: q scan_plain [OF esc [THEN conjunct1] esc [THEN conjunct2] plain(1)] del: scan_string.simps quote_body.simps)
    qed
  qed
qed


lemma obj_put_item:
  "obj_put (js ''id'') v [] = [(js ''id'', v)]"
  "obj_put (js ''title'') v' [(js ''id'', v)] = [(js ''id'', v), (js ''title'', v')]"
  "obj_put (js ''completed'') v'' [(js ''id'', v), (js ''title'', v')] =
     [(js ''id'', v), (js ''title'', v'), (js ''completed'', v'')]"
  by (simp_all add: obj_put_def array_index_def is_digit_def)

lemma parse_item:
  "parse_value st (stringify_item t @ r) = after_value st (item_json t) r"
proof -
  have ob: "\<And>v v' v''. obj_put (js ''completed'') v''
        (obj_put (js ''title'') v' (obj_put (js ''id'') v [])) =
      [(js ''id'', v), (js ''title'', v'), (js ''completed'', v'')]"
    by (simp only: obj_put_item)
  have "parse_value st (stringify_item t @ r) =
      after_value st (JObj (obj_put (js ''completed'') (JBool (completed t))
        (obj_put (js ''title'') (JStr (title t)) (obj_put (js ''id'') (JStr (item_id t)) [])))) r"
    by (cases "completed t")
      (simp_all add: stringify_item_def quote_json_def is_json_ws_def
        scan_string_quote_body
        del: scan_string.simps quote_body.simps)
  then show ?thesis
    by (simp only: ob item_json_def)
qed

lemma stringify_item_first:
  "\<exists>rest. stringify_item t = 0x7B # rest"
  by (simp add: stringify_item_def)

lemma parse_items:
  "ts \<noteq> [] \<Longrightarrow>
   parse_value (FArr vs # st) (join_comma (map stringify_item ts) @ 0x5D # r) =
     after_value st (JArr (vs @ map item_json ts)) r"
proof (induction ts arbitrary: vs)
  case Nil
  then show ?case by simp
next
  case (Cons t ts)
  show ?case
  proof (cases ts)
    case Nil
    then show ?thesis
      by (simp add: parse_item is_json_ws_def)
  next
    case (Cons u us)
    then have j: "join_comma (map stringify_item (t # ts)) =
        stringify_item t @ 0x2C # join_comma (map stringify_item ts)"
      by simp
    from Cons have "ts \<noteq> []" by simp
    from Cons.IH [OF this, of "vs @ [item_json t]"] show ?thesis
      by (simp only: j append_assoc append_Cons parse_item)
        (simp add: is_json_ws_def)
  qed
qed

lemma JSON_parse_stringify_todos:
  "JSON_parse (stringify_todos ts) = Some (todos_json ts)"
proof (cases ts)
  case Nil
  then show ?thesis
    by (simp add: JSON_parse_def stringify_todos_def todos_json_def is_json_ws_def)
next
  case (Cons t us)
  then have ne: "ts \<noteq> []" by simp
  obtain rest where first: "stringify_item t = 0x7B # rest"
    using stringify_item_first by blast
  have "\<exists>rest. join_comma (map stringify_item ts) = 0x7B # rest"
    using Cons first by (cases us) simp_all
  then obtain rest' where j: "join_comma (map stringify_item ts) = 0x7B # rest'"
    by blast
  have "array_start [] (join_comma (map stringify_item ts) @ [0x5D]) =
      parse_value [FArr []] (join_comma (map stringify_item ts) @ [0x5D])"
    by (simp add: j is_json_ws_def)
  also have "\<dots> = after_value [] (JArr ([] @ map item_json ts)) []"
    using parse_items [OF ne, of "[]" "[]" "[]"] by simp
  finally show ?thesis
    by (simp add: JSON_parse_def stringify_todos_def todos_json_def is_json_ws_def)
qed

section \<open>Saving and loading\<close>

lemma item_json_inj: "item_json t = item_json t' \<Longrightarrow> t = t'"
  by (cases t, cases t') (simp add: item_json_def)

lemma todos_json_eq: "(todos_json ts = todos_json ts') = (ts = ts')"
proof
  assume "todos_json ts = todos_json ts'"
  then have "map item_json ts = map item_json ts'"
    by (simp add: todos_json_def)
  moreover have "inj item_json"
    by (rule injI) (rule item_json_inj)
  ultimately show "ts = ts'"
    by (simp add: inj_map_eq_map)
next
  assume "ts = ts'"
  then show "todos_json ts = todos_json ts'" by simp
qed

lemma stringify_todos_nonempty: "stringify_todos ts \<noteq> []"
  by (simp add: stringify_todos_def)

lemma loadTodos_stringify:
  "ls LS_KEY = Some (stringify_todos ts) \<Longrightarrow> loadTodos ls = todos_json ts"
  by (simp add: loadTodos_def stringify_todos_nonempty JSON_parse_stringify_todos todos_json_def)

text \<open>
  C9: after \<open>saveTodos\<close>, \<open>loadTodos\<close> yields the array of the objects of \<open>todos\<close>: the same
  items in the same order, each with its id, title and flag. Different collections are
  different arrays.
\<close>

theorem save_then_load:
  "loadTodos (localStorage (saveTodos s)) = todos_json (todos s) \<and>
   (todos_json ts = todos_json ts') = (ts = ts')"
proof -
  have "localStorage (saveTodos s) LS_KEY = Some (stringify_todos (todos s))"
    by (simp add: saveTodos_def)
  then have "loadTodos (localStorage (saveTodos s)) = todos_json (todos s)"
    by (rule loadTodos_stringify)
  then show ?thesis
    by (simp add: todos_json_eq)
qed

theorem save_then_load_witness:
  "loadTodos (localStorage (saveTodos scenarioC)) = todos_json [itemA, itemB, itemC, itemD]"
  using save_then_load [of scenarioC] by (simp add: scenarioC_simps)

text \<open>The text that \<open>saveTodos\<close> stores for the single item A.\<close>

lemma stringify_todos_example:
  \<open>stringify_todos [itemA] = js ''[{"id":"a1","title":"A","completed":false}]''\<close>
  by (simp add: stringify_todos_def stringify_item_def quote_json_def itemA_def escape_char_def
      is_lead_def is_trail_def)

lemma loadTodos_absent: "ls LS_KEY = None \<Longrightarrow> loadTodos ls = JArr []"
  by (simp add: loadTodos_def)

lemma loadTodos_unparsable:
  "ls LS_KEY = Some raw \<Longrightarrow> JSON_parse raw = None \<Longrightarrow> loadTodos ls = JArr []"
  by (simp add: loadTodos_def)

lemma loadTodos_falsy:
  "ls LS_KEY = Some raw \<Longrightarrow> JSON_parse raw = Some v \<Longrightarrow> \<not> truthy v \<Longrightarrow> loadTodos ls = JArr []"
  by (simp add: loadTodos_def)

lemma loadTodos_truthy:
  "ls LS_KEY = Some raw \<Longrightarrow> JSON_parse raw = Some v \<Longrightarrow> truthy v \<Longrightarrow> loadTodos ls = v"
  by (auto simp: loadTodos_def JSON_parse_def)

lemma loadTodos_empty_text: "ls LS_KEY = Some [] \<Longrightarrow> loadTodos ls = JArr []"
  by (simp add: loadTodos_def)

text \<open>
  C3: \<open>loadTodos\<close> should yield the empty collection whenever the stored value is absent
  or malformed. It does when the key is absent, when the text is empty or does not parse,
  and when it parses to a falsy value (the lemmas above). Stored text that parses to
  a truthy value that is not an array of items is assigned to \<open>todos\<close> as it is: the
  object \<open>{}\<close>, the number \<open>42\<close>, the string \<open>"x"\<close>, \<open>true\<close>, and the array \<open>[1]\<close>.
\<close>

theorem load_keeps_non_collection:
  \<open>loadTodos [LS_KEY \<mapsto> js ''{}''] = JObj [] \<and>
   loadTodos [LS_KEY \<mapsto> js ''42''] = JNum 42 0 \<and>
   loadTodos [LS_KEY \<mapsto> js ''"x"''] = JStr (js ''x'') \<and>
   loadTodos [LS_KEY \<mapsto> js ''true''] = JBool True \<and>
   loadTodos [LS_KEY \<mapsto> js ''[1]''] = JArr [JNum 1 0]\<close>
  by (simp add: loadTodos_def JSON_parse_def is_json_ws_def is_digit_def
      scan_unsigned_def scan_frac_def scan_exp_def digits_val_def)

text \<open>
  C8 (amended): from a state whose items have non-empty, pairwise different ids, trimmed
  titles and pairwise different normalised titles (the empty collection is one), every
  sequence of events, with the ids \<open>uid()\<close> returns fresh and the dragged list a
  permutation of the shown items, leads to a state in which no two items have the same
  title after trimming and lower-casing.
\<close>

theorem handlers_keep_titles_unique:
  assumes "unique_ids (todos s0)" and "titles_trimmed (todos s0)" and "I1 lc (todos s0)"
    and "run lc es s0 = Some s"
  shows "I1 lc (todos s)"
  using run_preserves [OF assms] by simp

lemma started_fields:
  "todos (started ts ls) = ts" "editingId (started ts ls) = None"
  "filter_sel (started ts ls) = js ''all''" "searchQuery (started ts ls) = []"
  by (simp_all add: started_def)

theorem handlers_keep_titles_unique_witness:
  "unique_ids (todos (started [] Map.empty)) \<and>
   titles_trimmed (todos (started [] Map.empty)) \<and>
   I1 lower_ascii (todos (started [] Map.empty)) \<and>
   map_option todos
     (run lower_ascii
        [Submit (js ''k1'') (js '' Buy milk ''), Submit (js ''k2'') (js ''BUY MILK''),
         Submit (js ''k2'') (js ''Eggs''), StartEdit (js ''k1''),
         Submit (js ''k3'') (js ''eggs ''), Submit (js ''k3'') (js ''Bread''),
         ChkChange (js ''k2'') True, FilterClick (js ''active''), DragEnd [js ''k1'']]
        (started [] Map.empty)) =
     Some [\<lparr>item_id = js ''k1'', title = js ''Bread'', completed = False\<rparr>,
           \<lparr>item_id = js ''k2'', title = js ''Eggs'', completed = True\<rparr>] \<and>
   I1 lower_ascii
     [\<lparr>item_id = js ''k1'', title = js ''Bread'', completed = False\<rparr>,
      \<lparr>item_id = js ''k2'', title = js ''Eggs'', completed = True\<rparr>]"
proof -
  let ?es = "[Submit (js ''k1'') (js '' Buy milk ''), Submit (js ''k2'') (js ''BUY MILK''),
         Submit (js ''k2'') (js ''Eggs''), StartEdit (js ''k1''),
         Submit (js ''k3'') (js ''eggs ''), Submit (js ''k3'') (js ''Bread''),
         ChkChange (js ''k2'') True, FilterClick (js ''active''), DragEnd [js ''k1'']]"
  let ?ts = "[\<lparr>item_id = js ''k1'', title = js ''Bread'', completed = False\<rparr>,
           \<lparr>item_id = js ''k2'', title = js ''Eggs'', completed = True\<rparr>]"
  have h1: "unique_ids (todos (started [] Map.empty))"
    and h2: "titles_trimmed (todos (started [] Map.empty))"
    and h3: "I1 lower_ascii (todos (started [] Map.empty))"
    by (simp_all add: started_fields unique_ids_def titles_trimmed_def I1_def)
  have r: "map_option todos (run lower_ascii ?es (started [] Map.empty)) = Some ?ts"
    by (simp add: started_def submit_def Let_def trim_def is_space_def lower_ascii_def
        truthy_id_def saveTodos_def startEdit_def chk_change_def filter_click_def onEnd_def
        newTodos_def shown_def)
  then obtain s where s: "run lower_ascii ?es (started [] Map.empty) = Some s" "todos s = ?ts"
    by auto
  from handlers_keep_titles_unique [OF h1 h2 h3 s(1)] s(2) have "I1 lower_ascii ?ts"
    by simp
  with h1 h2 h3 r show ?thesis
    by blast
qed

text \<open>
  C8 as stated fails for the state after loading: stored text in which two items have the
  title \<open>x\<close> is loaded as it is, whatever the case mapping.
\<close>

theorem load_admits_equal_titles:
  \<open>loadTodos [LS_KEY \<mapsto>
       js ''[{"id":"a","title":"x","completed":false},{"id":"b","title":"x","completed":true}]''] =
     todos_json [\<lparr>item_id = js ''a'', title = js ''x'', completed = False\<rparr>,
                 \<lparr>item_id = js ''b'', title = js ''x'', completed = True\<rparr>] \<and>
   (\<forall>lc. \<not> I1 lc [\<lparr>item_id = js ''a'', title = js ''x'', completed = False\<rparr>,
                    \<lparr>item_id = js ''b'', title = js ''x'', completed = True\<rparr>])\<close>
  by (simp add: loadTodos_def JSON_parse_def is_json_ws_def is_digit_def
      obj_put_def array_index_def unescape_def todos_json_def item_json_def I1_def)

end
